theory Spec2Isabelle
  imports Main
begin

section \<open>Data model\<close>

text \<open>
  The orchestrator of \<^verbatim>\<open>environments.py\<close> is embedded over an explicit store.
  Python lists are mutable objects that several environments may share
  (\<^verbatim>\<open>env.individuals = self.individuals\<close>, \<^verbatim>\<open>new.history = self.current_environment.history\<close>),
  so a population and a fitness history are addresses into two stores, and the
  sub-environments of a composite are addresses into a store of environment objects.
  Exceptions are values of type \<open>error\<close>; a method returns its outcome together with
  the state reached when it returned or raised.

  Collaborators outside the file are parameters: a stage and a callback are functions
  on the population they mutate in place, threading a world state \<open>'w\<close> (their own
  state, the random generator, the clock); they are taken to return normally.
  A candidate is an opaque object, hence truthy, neither iterable nor subscriptable,
  and \<open>copy\<close> yields an independent equal clone.
  Console output and plotting have no effect on the state and are left out.
\<close>

subsection \<open>Fitness values\<close>

text \<open>
  A fitness is a Python number with a total order: an integer, or one of the floats
  \<^verbatim>\<open>-inf\<close> and \<^verbatim>\<open>inf\<close> (finite floats are taken as exact numbers). The difference
  of two fitness values is a number again or the float \<^verbatim>\<open>nan\<close>, which arises
  from \<^verbatim>\<open>inf - inf\<close>; \<open>nan\<close> is neither greater nor smaller than anything.
\<close>

datatype fit = NegInf | Fin int | PosInf

instantiation fit :: linorder
begin

fun less_eq_fit :: "fit \<Rightarrow> fit \<Rightarrow> bool" where
  "less_eq_fit NegInf y = True"
| "less_eq_fit (Fin a) NegInf = False"
| "less_eq_fit (Fin a) (Fin b) = (a \<le> b)"
| "less_eq_fit (Fin a) PosInf = True"
| "less_eq_fit PosInf PosInf = True"
| "less_eq_fit PosInf y = False"

definition less_fit :: "fit \<Rightarrow> fit \<Rightarrow> bool" where
  "less_fit x y = (x \<le> y \<and> \<not> y \<le> x)"

instance
proof
  fix x y z :: fit
  show "(x < y) = (x \<le> y \<and> \<not> y \<le> x)" by (simp add: less_fit_def)
  show "x \<le> x" by (cases x) simp_all
  show "x \<le> y \<Longrightarrow> y \<le> z \<Longrightarrow> x \<le> z"
    by (cases x; cases y; cases z) simp_all
  show "x \<le> y \<Longrightarrow> y \<le> x \<Longrightarrow> x = y"
    by (cases x; cases y) simp_all
  show "x \<le> y \<or> y \<le> x"
    by (cases x; cases y) auto
qed

end

text \<open>The outcome of a subtraction: a number or \<open>nan\<close>.\<close>

datatype gain = NaN | Num fit

fun minus_fit :: "fit \<Rightarrow> fit \<Rightarrow> gain" where
  "minus_fit (Fin a) (Fin b) = Num (Fin (a - b))"
| "minus_fit PosInf PosInf = NaN"
| "minus_fit NegInf NegInf = NaN"
| "minus_fit PosInf y = Num PosInf"
| "minus_fit NegInf y = Num NegInf"
| "minus_fit (Fin a) PosInf = Num NegInf"
| "minus_fit (Fin a) NegInf = Num PosInf"

text \<open>\<^verbatim>\<open>x > m\<close> on such outcomes: false as soon as one side is \<open>nan\<close>.\<close>

fun exceeds :: "gain \<Rightarrow> gain \<Rightarrow> bool" where
  "exceeds (Num x) (Num m) = (x > m)"
| "exceeds x m = False"

subsection \<open>Candidates, environments and the store\<close>

datatype error =
  NoIndividualsAtEndOfRun | TypeError | ValueError | IndexError | ZeroDivisionError

record candidate =
  fitness :: fit
  genes :: "int list"

definition copy :: "candidate \<Rightarrow> candidate" where
  "copy c = c"

type_synonym fitness_fn = "int list \<Rightarrow> int"

text \<open>What a stage or a callback can read of the environment it is handed.\<close>

record env_view =
  view_name :: string
  view_iteration :: int
  view_generations :: int
  view_history :: "fit list"
  view_best_ever :: "candidate option"
  view_fitness_function :: "fitness_fn option"

type_synonym 'w stage = "env_view \<Rightarrow> 'w \<Rightarrow> candidate list \<Rightarrow> candidate list \<times> 'w"

text \<open>
  A callback is called with the population and the environment by \<open>execute\<close>, and
  with the population alone by \<open>Adversarial.evolve\<close>: the view is optional.
\<close>

type_synonym 'w callback_fn =
  "env_view option \<Rightarrow> 'w \<Rightarrow> candidate list \<Rightarrow> candidate list \<times> 'w"

text \<open>
  The fields of \<open>Environment.__init__\<close>. \<open>env_fitness\<close> is the attribute
  \<^verbatim>\<open>fitness\<close> that \<open>smart_evolve\<close> reads of an environment: no method of the file
  defines or writes it (it comes with the base class \<^verbatim>\<open>layer.Layer\<close>, which is not
  part of the file), so it is a field that only the constructor's caller sets.
\<close>

record 'w env =
  fitness_function :: "fitness_fn option"
  generations :: int
  verbose_every :: int
  callback :: "'w callback_fn option"
  name :: string
  layers :: "'w stage list"
  individuals :: nat
  iteration :: int
  history :: nat
  compiled :: bool
  deactivated :: bool
  best_ever :: "candidate option"
  env_fitness :: int

record 'w heap =
  pops :: "nat \<Rightarrow> candidate list"
  hists :: "nat \<Rightarrow> fit list"
  envs :: "nat \<Rightarrow> 'w env"
  next_pop :: nat
  next_hist :: nat
  world :: 'w

text \<open>A fresh empty list object (\<^verbatim>\<open>[]\<close>) of either kind.\<close>

definition new_pop :: "'w heap \<Rightarrow> nat \<times> 'w heap" where
  "new_pop h = (next_pop h, h\<lparr>pops := (pops h)(next_pop h := []), next_pop := Suc (next_pop h)\<rparr>)"

definition new_hist :: "'w heap \<Rightarrow> nat \<times> 'w heap" where
  "new_hist h = (next_hist h, h\<lparr>hists := (hists h)(next_hist h := []), next_hist := Suc (next_hist h)\<rparr>)"

section \<open>Environment\<close>

subsection \<open>Construction\<close>

text \<open>
  \<open>Environment.__init__(layers=None, name, verbose_every, device)\<close>: after the base
  class's initialiser and five field assignments, \<^verbatim>\<open>for lay in layers\<close> iterates the
  argument; \<open>None\<close> is not iterable and raises \<open>TypeError\<close> before the population and
  the history are created. \<open>lay.set_environment(self)\<close> stores a back reference in
  the stage and changes nothing of the modelled state.
\<close>

definition Environment_init ::
  "'w stage list option \<Rightarrow> string \<Rightarrow> int \<Rightarrow> int \<Rightarrow> 'w heap \<Rightarrow> (error + 'w env) \<times> 'w heap" where
  "Environment_init layers_arg name_arg verbose_every_arg fit h =
     (case layers_arg of
        None \<Rightarrow> (Inl TypeError, h)
      | Some ls \<Rightarrow>
          (let (p, h1) = new_pop h;
               (hs, h2) = new_hist h1
           in (Inr \<lparr>fitness_function = None, generations = 0,
                      verbose_every = verbose_every_arg, callback = None,
                      name = name_arg, layers = ls, individuals = p, iteration = 0,
                      history = hs, compiled = False, deactivated = False,
                      best_ever = None, env_fitness = fit\<rparr>, h2)))"

definition deactivate :: "('w, 'z) env_scheme \<Rightarrow> ('w, 'z) env_scheme" where
  "deactivate e = e\<lparr>deactivated := True\<rparr>"

definition get_fitness_metric :: "('w, 'z) env_scheme \<Rightarrow> fit" where
  "get_fitness_metric e = (case best_ever e of Some b \<Rightarrow> fitness b | None \<Rightarrow> Fin 0)"

subsection \<open>compile\<close>

text \<open>
  A keyword call may leave a parameter out. \<open>fitness_function\<close> has no default, so a
  call of \<open>compile\<close> without it raises \<open>TypeError\<close> before the body runs.
\<close>

datatype 'a arg = Omitted | Passed 'a

definition compile ::
  "('w, 'z) env_scheme \<Rightarrow> fitness_fn option arg \<Rightarrow> nat option \<Rightarrow> 'w callback_fn option \<Rightarrow> int
     \<Rightarrow> 'w heap \<Rightarrow> (error + unit) \<times> ('w, 'z) env_scheme \<times> 'w heap" where
  "compile e ff individuals_arg callback_arg verbose_every_arg h =
     (case ff of
        Omitted \<Rightarrow> (Inl TypeError, e, h)
      | Passed f \<Rightarrow>
          (let e1 = e\<lparr>fitness_function := f, compiled := True\<rparr>;
               (p, h1) = (case individuals_arg of Some p \<Rightarrow> (p, h) | None \<Rightarrow> new_pop h)
           in (Inr (), e1\<lparr>individuals := p, callback := callback_arg,
                              verbose_every := verbose_every_arg\<rparr>, h1)))"

subsection \<open>The generation step\<close>

definition view_of :: "('w, 'z) env_scheme \<Rightarrow> 'w heap \<Rightarrow> env_view" where
  "view_of e h =
     \<lparr>view_name = name e, view_iteration = iteration e, view_generations = generations e,
      view_history = hists h (history e), view_best_ever = best_ever e,
      view_fitness_function = fitness_function e\<rparr>"

text \<open>\<open>a_layer.run(self.individuals, self)\<close>: the stage rewrites the list object in place.\<close>

definition run_layer :: "'w stage \<Rightarrow> ('w, 'z) env_scheme \<Rightarrow> 'w heap \<Rightarrow> 'w heap" where
  "run_layer l e h =
     (let (p, w) = l (view_of e h) (world h) (pops h (individuals e))
      in h\<lparr>pops := (pops h)(individuals e := p), world := w\<rparr>)"

fun run_layers :: "'w stage list \<Rightarrow> ('w, 'z) env_scheme \<Rightarrow> 'w heap \<Rightarrow> 'w heap" where
  "run_layers [] e h = h"
| "run_layers (l # ls) e h = run_layers ls e (run_layer l e h)"

definition run_callback :: "('w, 'z) env_scheme \<Rightarrow> 'w heap \<Rightarrow> 'w heap" where
  "run_callback e h =
     (case callback e of
        None \<Rightarrow> h
      | Some cb \<Rightarrow>
          (let (p, w) = cb (Some (view_of e h)) (world h) (pops h (individuals e))
           in h\<lparr>pops := (pops h)(individuals e := p), world := w\<rparr>))"

text \<open>
  The state after every stage and the callback ran, before the emptiness check.
  \<^verbatim>\<open>if self.callback:\<close> tests for \<open>None\<close>: a callable is truthy.
\<close>

definition after_stages :: "('w, 'z) env_scheme \<Rightarrow> 'w heap \<Rightarrow> 'w heap" where
  "after_stages e h = run_callback e (run_layers (layers e) e h)"

text \<open>
  \<open>Environment.execute\<close>. The parameter \<open>individuals\<close> of the method is never read
  (the body uses \<open>self.individuals\<close>), so the model does not take it.
\<close>

definition execute ::
  "('w, 'z) env_scheme \<Rightarrow> 'w heap \<Rightarrow> (error + unit) \<times> ('w, 'z) env_scheme \<times> 'w heap" where
  "execute e h =
     (let h1 = after_stages e h;
          pop = pops h1 (individuals e)
      in if length pop = 0 then (Inl NoIndividualsAtEndOfRun, e, h1)
         else
           (let fit = fitness (last pop);
                e1 = (case best_ever e of
                        Some b \<Rightarrow> if fit > fitness b then e\<lparr>best_ever := Some (copy (last pop))\<rparr> else e
                      | None \<Rightarrow> e\<lparr>best_ever := Some (copy (last pop))\<rparr>)
            in (Inr (), e1, h1\<lparr>hists := (hists h1)(history e1 := hists h1 (history e1) @ [fit])\<rparr>)))"

subsection \<open>evolve\<close>

text \<open>
  \<open>evolve\<close> returns the population alone when the environment is deactivated and the
  pair of population and history otherwise.
\<close>

datatype evolve_ret = RetPop nat | RetPair nat nat

text \<open>\<^verbatim>\<open>for i in range(...)\<close>: the body for each index in turn, until one raises.\<close>

fun evolve_loop ::
  "int list \<Rightarrow> ('w, 'z) env_scheme \<Rightarrow> 'w heap \<Rightarrow> (error + unit) \<times> ('w, 'z) env_scheme \<times> 'w heap" where
  "evolve_loop [] e h = (Inr (), e, h)"
| "evolve_loop (i # is) e h =
     (case execute (e\<lparr>iteration := i\<rparr>) h of
        (Inl err, e1, h1) \<Rightarrow> (Inl err, e1, h1)
      | (Inr u, e1, h1) \<Rightarrow> evolve_loop is e1 h1)"

definition range_int :: "int \<Rightarrow> int list" where
  "range_int n = map int [0 ..< nat n]"

definition evolve ::
  "('w, 'z) env_scheme \<Rightarrow> int \<Rightarrow> 'w heap \<Rightarrow> (error + evolve_ret) \<times> ('w, 'z) env_scheme \<times> 'w heap" where
  "evolve e generations_arg h =
     (if deactivated e then (Inr (RetPop (individuals e)), e, h)
      else
        (case evolve_loop (range_int generations_arg) (e\<lparr>generations := generations_arg\<rparr>) h of
           (Inl err, e1, h1) \<Rightarrow> (Inl err, e1, h1)
         | (Inr u, e1, h1) \<Rightarrow> (Inr (RetPair (individuals e1) (history e1)), e1, h1)))"


text \<open>The last candidate of the population an environment holds in a state.\<close>

definition representative :: "('w, 'z) env_scheme \<times> 'w heap \<Rightarrow> candidate" where
  "representative st = last (pops (snd st) (individuals (fst st)))"

section \<open>Sub-environments of a composite\<close>

text \<open>
  A composite holds its sub-environments by reference. A method call on one loads the
  object, runs the method of \<open>Environment\<close> and stores the object back. The
  sub-environments are base environments (\<open>Environment\<close> or \<open>Sequential\<close>, which
  delegates \<open>compile\<close> and \<open>evolve\<close> unchanged).
\<close>

definition compile_at ::
  "nat \<Rightarrow> fitness_fn option arg \<Rightarrow> nat option \<Rightarrow> 'w callback_fn option \<Rightarrow> int
     \<Rightarrow> 'w heap \<Rightarrow> (error + unit) \<times> 'w heap" where
  "compile_at a ff individuals_arg callback_arg verbose_every_arg h =
     (case compile (envs h a) ff individuals_arg callback_arg verbose_every_arg h of
        (r, e1, h1) \<Rightarrow> (r, h1\<lparr>envs := (envs h1)(a := e1)\<rparr>))"

definition evolve_at :: "nat \<Rightarrow> int \<Rightarrow> 'w heap \<Rightarrow> (error + evolve_ret) \<times> 'w heap" where
  "evolve_at a generations_arg h =
     (case evolve (envs h a) generations_arg h of
        (r, e1, h1) \<Rightarrow> (r, h1\<lparr>envs := (envs h1)(a := e1)\<rparr>))"

text \<open>
  The loop all three composites run after compiling themselves:
  \<^verbatim>\<open>if not environment.compiled: environment.compile(verbose_every=verbose_every)\<close>.
  The call passes \<open>verbose_every\<close> only.
\<close>

fun compile_sub_environments :: "nat list \<Rightarrow> int \<Rightarrow> 'w heap \<Rightarrow> (error + unit) \<times> 'w heap" where
  "compile_sub_environments [] v h = (Inr (), h)"
| "compile_sub_environments (a # as) v h =
     (if \<not> compiled (envs h a)
      then (case compile_at a Omitted None None v h of
              (Inl err, h1) \<Rightarrow> (Inl err, h1)
            | (Inr u, h1) \<Rightarrow> compile_sub_environments as v h1)
      else compile_sub_environments as v h)"

text \<open>
  \<^verbatim>\<open>individuals, history = env.evolve(...)\<close>. The pair of an active environment
  unpacks; the bare population of a deactivated one unpacks only when it holds exactly
  two candidates, which then stand where the lists were expected.
\<close>

datatype unpacked = Lists nat nat | Cands candidate candidate

definition unpack_pair :: "evolve_ret \<Rightarrow> 'w heap \<Rightarrow> error + unpacked" where
  "unpack_pair r h =
     (case r of
        RetPair p hs \<Rightarrow> Inr (Lists p hs)
      | RetPop p \<Rightarrow> (case pops h p of [c, d] \<Rightarrow> Inr (Cands c d) | _ \<Rightarrow> Inl ValueError))"

section \<open>Adversarial\<close>

record 'w adversarial = "'w env" +
  environments :: "nat list"

definition Adversarial_compile ::
  "'w adversarial \<Rightarrow> fitness_fn option \<Rightarrow> nat option \<Rightarrow> 'w callback_fn option \<Rightarrow> int
     \<Rightarrow> 'w heap \<Rightarrow> (error + unit) \<times> 'w adversarial \<times> 'w heap" where
  "Adversarial_compile s f individuals_arg callback_arg verbose_every_arg h =
     (case compile s (Passed f) individuals_arg callback_arg verbose_every_arg h of
        (Inl err, s1, h1) \<Rightarrow> (Inl err, s1, h1)
      | (Inr u, s1, h1) \<Rightarrow>
          (case compile_sub_environments (environments s1) verbose_every_arg h1 of
             (r, h2) \<Rightarrow> (r, s1, h2)))"

text \<open>A row of \<open>results\<close>: name, final history value, evolution time.\<close>

type_synonym result = "string \<times> fit \<times> int"

text \<open>
  The body of the loop of \<open>Adversarial.evolve\<close> for one sub-environment. \<open>clock\<close>
  is \<^verbatim>\<open>time.time()\<close>, read from the world. The callback is called with the
  population alone.
\<close>

definition adversarial_run ::
  "('w \<Rightarrow> int \<times> 'w) \<Rightarrow> 'w callback_fn option \<Rightarrow> int \<Rightarrow> nat \<Rightarrow> 'w heap \<Rightarrow> (error + result) \<times> 'w heap" where
  "adversarial_run clock cb g a h =
     (let (start_time, w1) = clock (world h)
      in case evolve_at a g (h\<lparr>world := w1\<rparr>) of
           (Inl err, h2) \<Rightarrow> (Inl err, h2)
         | (Inr ret, h2) \<Rightarrow>
             (case unpack_pair ret h2 of
                Inl err \<Rightarrow> (Inl err, h2)
              | Inr u \<Rightarrow>
                  (let (end_time, w3) = clock (world h2);
                       h3 = h2\<lparr>world := w3\<rparr>
                   in case u of
                        Cands c d \<Rightarrow> (Inl TypeError, h3)
                      | Lists p hs \<Rightarrow>
                          if hists h3 hs = [] then (Inl IndexError, h3)
                          else
                            (let row = (name (envs h3 a), last (hists h3 hs), end_time - start_time)
                             in case cb of
                                  None \<Rightarrow> (Inr row, h3)
                                | Some f \<Rightarrow>
                                    (let (q, w) = f None (world h3) (pops h3 p)
                                     in (Inr row, h3\<lparr>pops := (pops h3)(p := q), world := w\<rparr>))))))"

fun adversarial_runs ::
  "('w \<Rightarrow> int \<times> 'w) \<Rightarrow> 'w callback_fn option \<Rightarrow> int \<Rightarrow> nat list \<Rightarrow> result list \<Rightarrow> 'w heap
     \<Rightarrow> (error + result list) \<times> 'w heap" where
  "adversarial_runs clock cb g [] results h = (Inr results, h)"
| "adversarial_runs clock cb g (a # as) results h =
     (case adversarial_run clock cb g a h of
        (Inl err, h1) \<Rightarrow> (Inl err, h1)
      | (Inr row, h1) \<Rightarrow> adversarial_runs clock cb g as (results @ [row]) h1)"

text \<open>
  \<^verbatim>\<open>max(results, key=lambda x: x[1])\<close>: the running maximum is replaced only by a
  row whose key is strictly greater; an empty list raises \<open>ValueError\<close>.
\<close>

fun max_from :: "result \<Rightarrow> result list \<Rightarrow> result" where
  "max_from best [] = best"
| "max_from best (x # xs) =
     (if fst (snd x) > fst (snd best) then max_from x xs else max_from best xs)"

definition max_by_fitness :: "result list \<Rightarrow> error + result" where
  "max_by_fitness results =
     (case results of [] \<Rightarrow> Inl ValueError | r # rest \<Rightarrow> Inr (max_from r rest))"

definition Adversarial_evolve ::
  "('w \<Rightarrow> int \<times> 'w) \<Rightarrow> 'w adversarial \<Rightarrow> int \<Rightarrow> 'w heap \<Rightarrow> (error + result) \<times> 'w heap" where
  "Adversarial_evolve clock s g h =
     (case adversarial_runs clock (callback s) g (environments s) [] h of
        (Inl err, h1) \<Rightarrow> (Inl err, h1)
      | (Inr results, h1) \<Rightarrow> (max_by_fitness results, h1))"


section \<open>ChronologicalEnvironment\<close>

record 'w chronological = "'w env" +
  environments_and_generations :: "(nat \<times> int option) list"
  combined_history :: nat
  best_environment :: "(string \<times> fit) option"

text \<open>
  \<open>ChronologicalEnvironment.__init__\<close> hands \<open>None\<close> to the base constructor as
  its layers; the assignments after that call run only if it returns.
\<close>

definition ChronologicalEnvironment_init ::
  "(nat \<times> int option) list \<Rightarrow> string \<Rightarrow> int \<Rightarrow> 'w heap \<Rightarrow> (error + 'w chronological) \<times> 'w heap" where
  "ChronologicalEnvironment_init egs name_arg fit h =
     (case Environment_init None name_arg 1 fit h of
        (Inl err, h1) \<Rightarrow> (Inl err, h1)
      | (Inr e, h1) \<Rightarrow>
          (let (c, h2) = new_hist h1;
               (p, h3) = new_pop h2
           in (Inr (env.extend (e\<lparr>individuals := p\<rparr>)
                      (chronological.fields egs c None)), h3)))"

definition ChronologicalEnvironment_compile ::
  "'w chronological \<Rightarrow> fitness_fn option \<Rightarrow> nat option \<Rightarrow> 'w callback_fn option \<Rightarrow> int
     \<Rightarrow> 'w heap \<Rightarrow> (error + unit) \<times> 'w chronological \<times> 'w heap" where
  "ChronologicalEnvironment_compile s f individuals_arg callback_arg verbose_every_arg h =
     (case compile s (Passed f) individuals_arg callback_arg verbose_every_arg h of
        (Inl err, s1, h1) \<Rightarrow> (Inl err, s1, h1)
      | (Inr u, s1, h1) \<Rightarrow>
          (case compile_sub_environments (map fst (environments_and_generations s1)) verbose_every_arg h1 of
             (r, h2) \<Rightarrow> (r, s1, h2)))"

text \<open>
  The body of the loop of \<open>ChronologicalEnvironment.evolve\<close> for one stage pair.
  The stage environment is handed the composite's own list object, so the population
  that \<open>evolve\<close> returns is that same object and \<open>extend\<close> appends it to itself.
  \<^verbatim>\<open>history[-1]\<close> is read on both paths of the last test and raises \<open>IndexError\<close> on
  an empty history.
\<close>

definition chronological_stage ::
  "int \<Rightarrow> nat \<times> int option \<Rightarrow> 'w chronological \<Rightarrow> 'w heap
     \<Rightarrow> (error + unit) \<times> 'w chronological \<times> 'w heap" where
  "chronological_stage g stage s h =
     (let a = fst stage;
          generations_here = (case snd stage of None \<Rightarrow> g | Some n \<Rightarrow> n);
          h1 = h\<lparr>envs := (envs h)(a := (envs h a)\<lparr>individuals := individuals s\<rparr>)\<rparr>
      in case evolve_at a generations_here h1 of
           (Inl err, h2) \<Rightarrow> (Inl err, s, h2)
         | (Inr ret, h2) \<Rightarrow>
             (case unpack_pair ret h2 of
                Inl err \<Rightarrow> (Inl err, s, h2)
              | Inr u \<Rightarrow>
                  (let (r, h3) = new_hist h2;
                       h4 = h3\<lparr>envs := (envs h3)(a := (envs h3 a)\<lparr>history := r\<rparr>)\<rparr>
                   in case u of
                        Cands c d \<Rightarrow> (Inl TypeError, s, h4)
                      | Lists p hs \<Rightarrow>
                          (let h5 = h4\<lparr>pops := (pops h4)(individuals s := pops h4 (individuals s) @ pops h4 p)\<rparr>;
                               h6 = h5\<lparr>hists := (hists h5)(combined_history s :=
                                         hists h5 (combined_history s) @ hists h5 hs)\<rparr>
                           in if hists h6 hs = [] then (Inl IndexError, s, h6)
                              else
                                (case best_environment s of
                                   None \<Rightarrow>
                                     (Inr (), s\<lparr>best_environment := Some (name (envs h6 a), last (hists h6 hs))\<rparr>, h6)
                                 | Some b \<Rightarrow>
                                     if last (hists h6 hs) > snd b
                                     then (Inr (), s\<lparr>best_environment := Some (name (envs h6 a), last (hists h6 hs))\<rparr>, h6)
                                     else (Inr (), s, h6))))))"

fun chronological_stages ::
  "int \<Rightarrow> (nat \<times> int option) list \<Rightarrow> 'w chronological \<Rightarrow> 'w heap
     \<Rightarrow> (error + unit) \<times> 'w chronological \<times> 'w heap" where
  "chronological_stages g [] s h = (Inr (), s, h)"
| "chronological_stages g (stage # stages) s h =
     (case chronological_stage g stage s h of
        (Inl err, s1, h1) \<Rightarrow> (Inl err, s1, h1)
      | (Inr u, s1, h1) \<Rightarrow> chronological_stages g stages s1 h1)"

definition ChronologicalEnvironment_evolve ::
  "'w chronological \<Rightarrow> int \<Rightarrow> 'w heap \<Rightarrow> (error + nat \<times> nat) \<times> 'w chronological \<times> 'w heap" where
  "ChronologicalEnvironment_evolve s g h =
     (case chronological_stages g (environments_and_generations s) s h of
        (Inl err, s1, h1) \<Rightarrow> (Inl err, s1, h1)
      | (Inr u, s1, h1) \<Rightarrow> (Inr (individuals s1, combined_history s1), s1, h1))"

section \<open>AdaptiveEnvironment\<close>

text \<open>The field \<open>environments_pool\<close> is the attribute \<^verbatim>\<open>environments\<close> of the class.\<close>

record 'w adaptive = "'w env" +
  environments_pool :: "nat list"
  switch_every :: int
  current_environment :: nat
  current_generation :: int
  go_for :: int

text \<open>
  \<open>AdaptiveEnvironment.__init__\<close> calls the base constructor with the name only, so
  its layers are the default \<open>None\<close>.
\<close>

definition AdaptiveEnvironment_init ::
  "nat list \<Rightarrow> int \<Rightarrow> int \<Rightarrow> string \<Rightarrow> int \<Rightarrow> 'w heap \<Rightarrow> (error + 'w adaptive) \<times> 'w heap" where
  "AdaptiveEnvironment_init environments_arg switch_every_arg go_for_arg name_arg fit h =
     (case Environment_init None name_arg 1 fit h of
        (Inl err, h1) \<Rightarrow> (Inl err, h1)
      | (Inr e, h1) \<Rightarrow>
          (case environments_arg of
             [] \<Rightarrow> (Inl IndexError, h1)
           | a # as \<Rightarrow>
               (Inr (env.extend e
                      (adaptive.fields environments_arg switch_every_arg a 0 go_for_arg)), h1)))"

definition AdaptiveEnvironment_compile ::
  "'w adaptive \<Rightarrow> fitness_fn option \<Rightarrow> nat option \<Rightarrow> 'w callback_fn option \<Rightarrow> int
     \<Rightarrow> 'w heap \<Rightarrow> (error + unit) \<times> 'w adaptive \<times> 'w heap" where
  "AdaptiveEnvironment_compile s f individuals_arg callback_arg verbose_every_arg h =
     (case compile s (Passed f) individuals_arg callback_arg verbose_every_arg h of
        (Inl err, s1, h1) \<Rightarrow> (Inl err, s1, h1)
      | (Inr u, s1, h1) \<Rightarrow>
          (case compile_sub_environments (environments_pool s1) verbose_every_arg h1 of
             (r, h2) \<Rightarrow> (r, s1, h2)))"

text \<open>\<^verbatim>\<open>if i.fitness < 1: i.deactivate()\<close> over the pool.\<close>

fun deactivate_unfit :: "nat list \<Rightarrow> 'w heap \<Rightarrow> 'w heap" where
  "deactivate_unfit [] h = h"
| "deactivate_unfit (a # as) h =
     (if env_fitness (envs h a) < 1
      then deactivate_unfit as (h\<lparr>envs := (envs h)(a := deactivate (envs h a))\<rparr>)
      else deactivate_unfit as h)"

text \<open>
  \<open>smart_evolve\<close>. \<^verbatim>\<open>random.choices(choices, weights, k=1)[0]\<close> is a library call:
  \<open>draw\<close> stands for it and yields an error or the position of the element drawn.
\<close>

definition smart_evolve ::
  "('w \<Rightarrow> int list \<Rightarrow> (error + nat) \<times> 'w) \<Rightarrow> 'w adaptive \<Rightarrow> 'w heap \<Rightarrow> (error + nat) \<times> 'w heap" where
  "smart_evolve draw s h =
     (let h1 = deactivate_unfit (environments_pool s) h
      in if switch_every s = 0 then (Inl ZeroDivisionError, h1)
         else if iteration s mod switch_every s = 0
         then
           (let weights = map (\<lambda>x. env_fitness (envs h1 x)) (environments_pool s);
                choices = environments_pool s
            in case draw (world h1) weights of
                 (Inl err, w) \<Rightarrow> (Inl err, h1\<lparr>world := w\<rparr>)
               | (Inr k, w) \<Rightarrow>
                   (if k < length choices then Inr (choices ! k) else Inl IndexError, h1\<lparr>world := w\<rparr>))
         else (Inr (current_environment s), h1))"

text \<open>One pass of the loop of \<open>AdaptiveEnvironment.evolve\<close>.\<close>

definition adaptive_step ::
  "('w \<Rightarrow> int list \<Rightarrow> (error + nat) \<times> 'w) \<Rightarrow> 'w adaptive \<Rightarrow> 'w heap
     \<Rightarrow> (error + unit) \<times> 'w adaptive \<times> 'w heap" where
  "adaptive_step draw s h =
     (let s1 = s\<lparr>iteration := iteration s + 1\<rparr>;
          s2 = s1\<lparr>current_generation := current_generation s1 + 1\<rparr>
      in case smart_evolve draw s2 h of
           (Inl err, h1) \<Rightarrow> (Inl err, s2, h1)
         | (Inr new, h1) \<Rightarrow>
             (let h2 = h1\<lparr>envs := (envs h1)(new := (envs h1 new)
                          \<lparr>individuals := individuals (envs h1 (current_environment s2))\<rparr>)\<rparr>;
                  h3 = h2\<lparr>envs := (envs h2)(new := (envs h2 new)
                          \<lparr>history := history (envs h2 (current_environment s2))\<rparr>)\<rparr>;
                  s3 = s2\<lparr>current_environment := new\<rparr>
              in case evolve_at (current_environment s3) 1 h3 of
                   (Inl err, h4) \<Rightarrow> (Inl err, s3, h4)
                 | (Inr ret, h4) \<Rightarrow> (Inr (), s3, h4)))"

fun adaptive_loop ::
  "('w \<Rightarrow> int list \<Rightarrow> (error + nat) \<times> 'w) \<Rightarrow> int list \<Rightarrow> 'w adaptive \<Rightarrow> 'w heap
     \<Rightarrow> (error + unit) \<times> 'w adaptive \<times> 'w heap" where
  "adaptive_loop draw [] s h = (Inr (), s, h)"
| "adaptive_loop draw (i # is) s h =
     (case adaptive_step draw s h of
        (Inl err, s1, h1) \<Rightarrow> (Inl err, s1, h1)
      | (Inr u, s1, h1) \<Rightarrow> adaptive_loop draw is s1 h1)"

definition AdaptiveEnvironment_evolve ::
  "('w \<Rightarrow> int list \<Rightarrow> (error + nat) \<times> 'w) \<Rightarrow> 'w adaptive \<Rightarrow> int \<Rightarrow> 'w heap
     \<Rightarrow> (error + nat \<times> nat) \<times> 'w adaptive \<times> 'w heap" where
  "AdaptiveEnvironment_evolve draw s generations_arg h =
     (case adaptive_loop draw (range_int generations_arg) s h of
        (Inl err, s1, h1) \<Rightarrow> (Inl err, s1, h1)
      | (Inr u, s1, h1) \<Rightarrow> (Inr (individuals s1, history s1), s1, h1))"

text \<open>
  \<open>switch_environment\<close>. The sentinel \<^verbatim>\<open>-float('inf')\<close> is \<open>Num NegInf\<close>; a gain
  that is \<^verbatim>\<open>-inf\<close> or \<open>nan\<close> does not exceed it. \<^verbatim>\<open>if best_environment:\<close> tests
  for \<open>None\<close>: the environment classes define no truth value of their own.
\<close>

definition sentinel :: gain where
  "sentinel = Num NegInf"

text \<open>The trial of one pool member; it yields \<open>fitness_increase\<close>.\<close>

definition trial :: "'w adaptive \<Rightarrow> fit \<Rightarrow> nat \<Rightarrow> 'w heap \<Rightarrow> (error + gain) \<times> 'w heap" where
  "trial s first a h =
     (let h1 = h\<lparr>envs := (envs h)(a := (envs h a)
                  \<lparr>individuals := individuals (envs h (current_environment s))\<rparr>)\<rparr>
      in case evolve_at a (go_for s) h1 of
           (Inl err, h2) \<Rightarrow> (Inl err, h2)
         | (Inr ret, h2) \<Rightarrow>
             (let pop = pops h2 (individuals (envs h2 a))
              in if pop = [] then (Inl IndexError, h2)
                 else (Inr (minus_fit (fitness (last pop)) first), h2)))"

fun trials ::
  "'w adaptive \<Rightarrow> fit \<Rightarrow> nat list \<Rightarrow> gain \<times> nat option \<Rightarrow> 'w heap
     \<Rightarrow> (error + gain \<times> nat option) \<times> 'w heap" where
  "trials s first [] acc h = (Inr acc, h)"
| "trials s first (a # as) acc h =
     (case trial s first a h of
        (Inl err, h1) \<Rightarrow> (Inl err, h1)
      | (Inr fitness_increase, h1) \<Rightarrow>
          trials s first as
            (if exceeds fitness_increase (fst acc) then (fitness_increase, Some a) else acc) h1)"

definition switch_environment ::
  "'w adaptive \<Rightarrow> 'w heap \<Rightarrow> (error + unit) \<times> 'w adaptive \<times> 'w heap" where
  "switch_environment s h =
     (let pop = pops h (individuals (envs h (current_environment s)))
      in if pop = [] then (Inl IndexError, s, h)
         else
           (case trials s (fitness (last pop)) (environments_pool s) (sentinel, None) h of
              (Inl err, h1) \<Rightarrow> (Inl err, s, h1)
            | (Inr (mx, best), h1) \<Rightarrow>
                (case best of
                   None \<Rightarrow> (Inr (), s, h1)
                 | Some b \<Rightarrow>
                     (Inr (), s\<lparr>current_environment := b\<rparr>,
                      h1\<lparr>envs := (envs h1)(b := (envs h1 b)
                            \<lparr>individuals := individuals (envs h1 (current_environment s))\<rparr>)\<rparr>))))"


section \<open>Concrete scenarios\<close>

text \<open>
  A stage that appends a clone of the last candidate with its fitness raised by one,
  and an environment that starts from one candidate of fitness 0.
\<close>

fun bump :: "fit \<Rightarrow> fit" where
  "bump (Fin n) = Fin (n + 1)"
| "bump x = x"

definition grow_stage :: "unit stage" where
  "grow_stage v w p =
     (if p = [] then ([], w) else (p @ [(last p)\<lparr>fitness := bump (fitness (last p))\<rparr>], w))"

definition demo_env :: "unit env" where
  "demo_env =
     \<lparr>fitness_function = None, generations = 0, verbose_every = 1, callback = None,
      name = ''demo'', layers = [grow_stage], individuals = 0, iteration = 0, history = 0,
      compiled = True, deactivated = False, best_ever = None, env_fitness = 1\<rparr>"

definition demo_heap :: "unit heap" where
  "demo_heap =
     \<lparr>pops = (\<lambda>r. if r = 0 then [\<lparr>fitness = Fin 0, genes = []\<rparr>] else []),
      hists = (\<lambda>r. []), envs = (\<lambda>a. demo_env), next_pop = 1, next_hist = 1, world = ()\<rparr>"

text \<open>The states before and after generation \<open>i\<close> of a run of \<open>demo_env\<close>.\<close>

definition demo_pre :: "nat \<Rightarrow> unit env \<times> unit heap" where
  "demo_pre i =
     (case snd (evolve_loop (range_int (int i)) demo_env demo_heap) of
        (e, h) \<Rightarrow> (e\<lparr>iteration := int i\<rparr>, h))"

definition demo_post :: "nat \<Rightarrow> unit env \<times> unit heap" where
  "demo_post i = snd (evolve_loop (range_int (int i + 1)) demo_env demo_heap)"

text \<open>A stage that grows the population except in the generation of index 2, where it empties it.\<close>

definition fragile_stage :: "unit stage" where
  "fragile_stage v w p = (if view_iteration v = 2 then ([], w) else grow_stage v w p)"

definition fragile_env :: "unit env" where
  "fragile_env = demo_env\<lparr>name := ''fragile'', layers := [fragile_stage]\<rparr>"

text \<open>
  Two compiled environments \<open>A\<close> (at address 1, starting from fitness 4) and \<open>B\<close> (at
  address 2, starting from fitness 7), each with its own population and history, and
  the three composites over them. List object 0 of either kind belongs to the
  composite; history 3 is the combined history of the chronological composite.
\<close>

definition env_A :: "unit env" where
  "env_A = demo_env\<lparr>name := ''A'', individuals := 1, history := 1\<rparr>"

definition env_B :: "unit env" where
  "env_B = demo_env\<lparr>name := ''B'', individuals := 2, history := 2\<rparr>"

definition duel_heap :: "unit heap" where
  "duel_heap =
     \<lparr>pops = (\<lambda>r. if r = 0 then [\<lparr>fitness = Fin 0, genes = []\<rparr>]
                  else if r = 1 then [\<lparr>fitness = Fin 4, genes = []\<rparr>]
                  else if r = 2 then [\<lparr>fitness = Fin 7, genes = []\<rparr>] else []),
      hists = (\<lambda>r. []),
      envs = (\<lambda>a. if a = 1 then env_A else env_B),
      next_pop = 3, next_hist = 4, world = ()\<rparr>"

definition composite_base :: "unit env" where
  "composite_base = demo_env\<lparr>name := ''composite'', layers := [], compiled := False\<rparr>"

definition duel :: "unit adversarial" where
  "duel = env.extend composite_base (adversarial.fields [1, 2])"

definition relay :: "unit chronological" where
  "relay = env.extend composite_base (chronological.fields [(1, Some 2), (2, Some 1)] 3 None)"

definition pool :: "unit adaptive" where
  "pool = env.extend composite_base (adaptive.fields [1, 2] 10 1 0 1)"

text \<open>The same store with \<open>A\<close> not yet compiled.\<close>

definition raw_heap :: "unit heap" where
  "raw_heap = duel_heap\<lparr>envs := (envs duel_heap)(1 := env_A\<lparr>compiled := False, fitness_function := None\<rparr>)\<rparr>"

text \<open>
  The adaptive composite after \<open>compile\<close> was handed list object 1, the population
  that \<open>A\<close> was compiled with; the adaptive composite with a trial length of 0; the
  store in which the population of \<open>A\<close> is empty; and the store in which it holds one
  candidate of fitness \<^verbatim>\<open>-inf\<close>.
\<close>

definition shared_pool :: "unit adaptive" where
  "shared_pool =
     fst (snd (AdaptiveEnvironment_compile pool (Some sum_list) (Some 1) None 1 duel_heap))"

definition shared_heap :: "unit heap" where
  "shared_heap =
     snd (snd (AdaptiveEnvironment_compile pool (Some sum_list) (Some 1) None 1 duel_heap))"

definition idle_pool :: "unit adaptive" where
  "idle_pool = pool\<lparr>go_for := 0\<rparr>"

definition bare_heap :: "unit heap" where
  "bare_heap = duel_heap\<lparr>pops := (pops duel_heap)(1 := [])\<rparr>"

definition frozen_heap :: "unit heap" where
  "frozen_heap = duel_heap\<lparr>pops := (pops duel_heap)(1 := [\<lparr>fitness = NegInf, genes = []\<rparr>])\<rparr>"

text \<open>A clock that always reads 0 and a draw that always takes the first element.\<close>

definition still_clock :: "unit \<Rightarrow> int \<times> unit" where
  "still_clock w = (0, w)"

definition first_draw :: "unit \<Rightarrow> int list \<Rightarrow> (error + nat) \<times> unit" where
  "first_draw w weights = (Inr 0, w)"

text \<open>
  Variations of the chronological composite: a single stage of zero generations, the
  store in which \<open>A\<close> is deactivated, and a second call of \<open>evolve\<close> on the state the
  first call leaves.
\<close>

definition relay_zero :: "unit chronological" where
  "relay_zero = relay\<lparr>environments_and_generations := [(1, Some 0)]\<rparr>"

definition idle_heap :: "unit heap" where
  "idle_heap = duel_heap\<lparr>envs := (envs duel_heap)(1 := deactivate env_A)\<rparr>"

definition relay_rerun ::
  "(error + nat \<times> nat) \<times> unit chronological \<times> unit heap" where
  "relay_rerun =
     (case ChronologicalEnvironment_evolve relay 1 duel_heap of
        (r, s1, h1) \<Rightarrow> ChronologicalEnvironment_evolve s1 1 h1)"

section \<open>Properties of the generation loop\<close>

subsection \<open>The order of fitness values\<close>

lemma fit_less_Fin:
  "Fin a < Fin b \<longleftrightarrow> a < b" "NegInf < Fin a" "Fin a < PosInf" "NegInf < PosInf"
  by (auto simp: less_fit_def)

lemma fit_less_bounds: "\<not> x < NegInf" "\<not> PosInf < x"
  by (cases x; simp add: less_fit_def)+

lemmas fit_less = fit_less_Fin fit_less_bounds

subsection \<open>What a generation step touches\<close>

lemma run_layer_frame:
  "hists (run_layer l e h) = hists h" "envs (run_layer l e h) = envs h"
  "next_pop (run_layer l e h) = next_pop h" "next_hist (run_layer l e h) = next_hist h"
  "r \<noteq> individuals e \<Longrightarrow> pops (run_layer l e h) r = pops h r"
  by (simp_all add: run_layer_def Let_def split: prod.splits)

lemma run_layers_frame:
  "hists (run_layers ls e h) = hists h \<and> envs (run_layers ls e h) = envs h \<and>
   next_pop (run_layers ls e h) = next_pop h \<and> next_hist (run_layers ls e h) = next_hist h \<and>
   (\<forall>r. r \<noteq> individuals e \<longrightarrow> pops (run_layers ls e h) r = pops h r)"
  by (induction ls arbitrary: h) (simp_all add: run_layer_frame)

lemma run_callback_frame:
  "hists (run_callback e h) = hists h \<and> envs (run_callback e h) = envs h \<and>
   next_pop (run_callback e h) = next_pop h \<and> next_hist (run_callback e h) = next_hist h \<and>
   (\<forall>r. r \<noteq> individuals e \<longrightarrow> pops (run_callback e h) r = pops h r)"
  by (simp add: run_callback_def Let_def split: option.splits prod.splits)

lemma after_stages_frame:
  "hists (after_stages e h) = hists h \<and> envs (after_stages e h) = envs h \<and>
   next_pop (after_stages e h) = next_pop h \<and> next_hist (after_stages e h) = next_hist h \<and>
   (\<forall>r. r \<noteq> individuals e \<longrightarrow> pops (after_stages e h) r = pops h r)"
  by (simp add: after_stages_def run_callback_frame run_layers_frame)

lemma execute_Inr:
  assumes "execute e h = (Inr u, e1, h1)"
  shows "pops (after_stages e h) (individuals e) \<noteq> []"
    and "e1 = (case best_ever e of
                 Some b \<Rightarrow> if fitness (last (pops (after_stages e h) (individuals e))) > fitness b
                            then e\<lparr>best_ever := Some (copy (last (pops (after_stages e h) (individuals e))))\<rparr> else e
               | None \<Rightarrow> e\<lparr>best_ever := Some (copy (last (pops (after_stages e h) (individuals e))))\<rparr>)"
    and "h1 = (after_stages e h)\<lparr>hists := (hists h)(history e := hists h (history e) @ [fitness (last (pops (after_stages e h) (individuals e)))])\<rparr>"
  using assms
  by (auto simp: execute_def Let_def after_stages_frame split: if_splits option.splits)

lemma execute_nonempty:
  assumes "pops (after_stages e h) (individuals e) \<noteq> []"
  shows "\<exists>e1 h1. execute e h = (Inr (), e1, h1)"
  using assms by (simp add: execute_def Let_def)

lemma execute_empty:
  assumes "pops (after_stages e h) (individuals e) = []"
  shows "execute e h = (Inl NoIndividualsAtEndOfRun, e, after_stages e h)"
  using assms by (simp add: execute_def Let_def)


lemma execute_keeps:
  assumes "execute e h = (r, e1, h1)"
  shows "layers e1 = layers e \<and> callback e1 = callback e \<and> individuals e1 = individuals e \<and>
         history e1 = history e \<and> deactivated e1 = deactivated e \<and> generations e1 = generations e \<and>
         iteration e1 = iteration e"
  using assms by (auto simp: execute_def Let_def split: if_splits option.splits)

lemma evolve_loop_chain:
  fixes e :: "('w, 'z) env_scheme"
  assumes "P (pops h (individuals e))"
    and "\<forall>(e' :: ('w, 'z) env_scheme) h'.
           layers e' = layers e \<and> callback e' = callback e \<and> individuals e' = individuals e \<and>
           P (pops h' (individuals e')) \<longrightarrow>
           pops (after_stages e' h') (individuals e') \<noteq> [] \<and> P (pops (after_stages e' h') (individuals e'))"
  shows "\<exists>e' h' tr. evolve_loop (map int [k ..< k + n]) e h = (Inr (), e', h') \<and>
           individuals e' = individuals e \<and> history e' = history e \<and>
           length (hists h' (history e')) = n + length (hists h (history e)) \<and>
           length tr = Suc n \<and> tr ! 0 = (e, h) \<and> tr ! n = (e', h') \<and>
           (\<forall>i<n. execute ((fst (tr ! i))\<lparr>iteration := int (k + i)\<rparr>) (snd (tr ! i)) = (Inr (), tr ! Suc i))"
  using assms
proof (induction n arbitrary: k e h)
  case 0
  show ?case by (rule exI[of _ e], rule exI[of _ h], rule exI[of _ "[(e, h)]"]) simp
next
  case (Suc n)
  let ?e0 = "e\<lparr>iteration := int k\<rparr>"
  have ne: "pops (after_stages ?e0 h) (individuals ?e0) \<noteq> []"
    and P1: "P (pops (after_stages ?e0 h) (individuals ?e0))"
    using Suc.prems by auto
  from execute_nonempty[OF ne] obtain e1 h1 where ex: "execute ?e0 h = (Inr (), e1, h1)" by blast
  have keep: "layers e1 = layers e" "callback e1 = callback e" "individuals e1 = individuals e"
    "history e1 = history e"
    using execute_keeps[OF ex] by simp_all
  have h1: "h1 = (after_stages ?e0 h)\<lparr>hists := (hists h)(history ?e0 := hists h (history ?e0) @
              [fitness (last (pops (after_stages ?e0 h) (individuals ?e0)))])\<rparr>"
    by (rule execute_Inr(3)[OF ex])
  have P1': "P (pops h1 (individuals e1))" using P1 keep by (simp add: h1)
  have len1: "length (hists h1 (history e1)) = Suc (length (hists h (history e)))"
    using keep by (simp add: h1)
  have step1: "\<forall>(e' :: ('w, 'z) env_scheme) h'.
           layers e' = layers e1 \<and> callback e' = callback e1 \<and> individuals e' = individuals e1 \<and>
           P (pops h' (individuals e')) \<longrightarrow>
           pops (after_stages e' h') (individuals e') \<noteq> [] \<and> P (pops (after_stages e' h') (individuals e'))"
    using Suc.prems(2) keep by simp
  from Suc.IH[OF P1' step1, of "Suc k"] obtain e' h' tr where
    loop: "evolve_loop (map int [Suc k ..< Suc k + n]) e1 h1 = (Inr (), e', h')"
    and k2: "individuals e' = individuals e1" "history e' = history e1"
    and len: "length (hists h' (history e')) = n + length (hists h1 (history e1))"
    and tr: "length tr = Suc n" "tr ! 0 = (e1, h1)" "tr ! n = (e', h')"
    and chain: "\<forall>i<n. execute ((fst (tr ! i))\<lparr>iteration := int (Suc k + i)\<rparr>) (snd (tr ! i)) = (Inr (), tr ! Suc i)"
    by blast
  have upt: "[k ..< k + Suc n] = k # [Suc k ..< Suc k + n]"
    by (simp add: upt_conv_Cons)
  have run: "evolve_loop (map int [k ..< k + Suc n]) e h = (Inr (), e', h')"
    unfolding upt using ex loop by simp
  have chain': "\<forall>i<Suc n. execute ((fst (((e, h) # tr) ! i))\<lparr>iteration := int (k + i)\<rparr>) (snd (((e, h) # tr) ! i))
                  = (Inr (), ((e, h) # tr) ! Suc i)"
  proof (intro allI impI)
    fix i assume "i < Suc n"
    show "execute ((fst (((e, h) # tr) ! i))\<lparr>iteration := int (k + i)\<rparr>) (snd (((e, h) # tr) ! i))
                  = (Inr (), ((e, h) # tr) ! Suc i)"
    proof (cases i)
      case 0
      then show ?thesis using ex tr(2) by simp
    next
      case (Suc j)
      then have "j < n" using \<open>i < Suc n\<close> by simp
      then show ?thesis using chain Suc by simp
    qed
  qed
  show ?case
    apply (rule exI[of _ e'], rule exI[of _ h'], rule exI[of _ "(e, h) # tr"])
    using run k2 keep len len1 tr chain' by simp
qed

lemma evolve_loop_append:
  "evolve_loop (xs @ ys) e h =
     (case evolve_loop xs e h of
        (Inl err, e1, h1) \<Rightarrow> (Inl err, e1, h1)
      | (Inr u, e1, h1) \<Rightarrow> evolve_loop ys e1 h1)"
  by (induction xs arbitrary: e h) (auto split: prod.splits sum.splits)

lemma range_int_split:
  assumes "k < nat N"
  shows "range_int N = range_int (int k) @ int k # map int [Suc k ..< nat N]"
proof -
  have "[0 ..< nat N] = [0 ..< k] @ [k ..< nat N]"
    using upt_add_eq_append[of 0 k "nat N - k"] assms by simp
  moreover have "[k ..< nat N] = k # [Suc k ..< nat N]"
    using assms by (simp add: upt_conv_Cons)
  ultimately show ?thesis by (simp add: range_int_def)
qed

lemma execute_best_ever:
  assumes "execute e h = (Inr u, e1, h1)"
  shows "best_ever e1 =
           (case best_ever e of
              None \<Rightarrow> Some (copy (representative (e1, h1)))
            | Some b \<Rightarrow> if fitness (representative (e1, h1)) > fitness b
                        then Some (copy (representative (e1, h1))) else Some b)"
  using assms
  by (auto simp: execute_def Let_def representative_def split: if_splits option.splits)

lemma range_int_0: "range_int 0 = []" by code_simp
lemma range_int_1: "range_int 1 = [0]" by code_simp
lemma range_int_2: "range_int 2 = [0, 1]" by code_simp
lemma range_int_3: "range_int 3 = [0, 1, 2]" by code_simp

lemmas demo_simps = demo_env_def demo_heap_def execute_def after_stages_def
  run_callback_def run_layer_def grow_stage_def view_of_def Let_def copy_def fit_less

subsection \<open>evolve runs the requested number of generations\<close>

text \<open>
  Claim C1. An environment that is not deactivated and whose stages and callback
  never leave the population empty (from every population satisfying an invariant
  \<open>P\<close> they produce a non-empty population satisfying \<open>P\<close>, and the starting population
  satisfies \<open>P\<close>) completes \<open>evolve N\<close>: the call returns the population and the
  history, the states \<open>tr\<close> it passes through are linked by exactly \<open>N\<close> successful
  generation steps with iteration indices \<open>0, ..., N - 1\<close>, and the history is longer
  by \<open>N\<close> than before the call. The count is \<open>nat N\<close>, which is \<open>N\<close> for every count
  \<open>N \<ge> 0\<close> (\<^verbatim>\<open>range\<close> of a negative number is empty).
\<close>

theorem evolve_completes_N_generations:
  fixes e :: "('w, 'z) env_scheme"
  assumes "\<not> deactivated e"
    and "P (pops h (individuals e))"
    and "\<forall>(e' :: ('w, 'z) env_scheme) h'.
           layers e' = layers e \<and> callback e' = callback e \<and> individuals e' = individuals e \<and>
           P (pops h' (individuals e')) \<longrightarrow>
           pops (after_stages e' h') (individuals e') \<noteq> [] \<and> P (pops (after_stages e' h') (individuals e'))"
  shows "\<exists>e' h' tr. evolve e N h = (Inr (RetPair (individuals e) (history e)), e', h') \<and>
           length (hists h' (history e')) = nat N + length (hists h (history e)) \<and>
           length tr = Suc (nat N) \<and> tr ! 0 = (e\<lparr>generations := N\<rparr>, h) \<and> tr ! nat N = (e', h') \<and>
           (\<forall>i<nat N. execute ((fst (tr ! i))\<lparr>iteration := int i\<rparr>) (snd (tr ! i)) = (Inr (), tr ! Suc i))"
proof -
  let ?e = "e\<lparr>generations := N\<rparr>"
  have P0: "P (pops h (individuals ?e))" using assms(2) by simp
  have st: "\<forall>(e' :: ('w, 'z) env_scheme) h'.
           layers e' = layers ?e \<and> callback e' = callback ?e \<and> individuals e' = individuals ?e \<and>
           P (pops h' (individuals e')) \<longrightarrow>
           pops (after_stages e' h') (individuals e') \<noteq> [] \<and> P (pops (after_stages e' h') (individuals e'))"
    using assms(3) by simp
  from evolve_loop_chain[OF P0 st, of 0 "nat N"] obtain e' h' tr where
    loop: "evolve_loop (map int [0 ..< nat N]) ?e h = (Inr (), e', h')"
    and k: "individuals e' = individuals ?e" "history e' = history ?e"
    and len: "length (hists h' (history e')) = nat N + length (hists h (history ?e))"
    and tr: "length tr = Suc (nat N)" "tr ! 0 = (?e, h)" "tr ! nat N = (e', h')"
    and chain: "\<forall>i<nat N. execute ((fst (tr ! i))\<lparr>iteration := int (0 + i)\<rparr>) (snd (tr ! i)) = (Inr (), tr ! Suc i)"
    by auto
  have "evolve e N h = (Inr (RetPair (individuals e) (history e)), e', h')"
    using assms(1) loop k by (simp add: evolve_def range_int_def)
  then show ?thesis using len tr chain by auto
qed

theorem evolve_completes_N_generations_witness:
  "(\<exists>e' h'. evolve demo_env 3 demo_heap = (Inr (RetPair 0 0), e', h') \<and>
     length (hists h' (history e')) = 3) \<and>
   hists (snd (snd (evolve demo_env 3 demo_heap))) 0 = [Fin 1, Fin 2, Fin 3]"
proof -
  have a: "\<not> deactivated demo_env" by (simp add: demo_env_def)
  have c: "(\<lambda>p. p \<noteq> []) (pops demo_heap (individuals demo_env))"
    by (simp add: demo_env_def demo_heap_def)
  have d: "\<forall>(e' :: unit env) h'.
           layers e' = layers demo_env \<and> callback e' = callback demo_env \<and>
           individuals e' = individuals demo_env \<and> (\<lambda>p. p \<noteq> []) (pops h' (individuals e')) \<longrightarrow>
           pops (after_stages e' h') (individuals e') \<noteq> [] \<and>
           (\<lambda>p. p \<noteq> []) (pops (after_stages e' h') (individuals e'))"
    by (auto simp: demo_env_def after_stages_def run_callback_def run_layer_def grow_stage_def)
  have v: "hists (snd (snd (evolve demo_env 3 demo_heap))) 0 = [Fin 1, Fin 2, Fin 3]"
    by (simp add: evolve_def range_int_3 demo_simps)
  from evolve_completes_N_generations[where e=demo_env and N=3 and P="\<lambda>p. p \<noteq> []"
      and h=demo_heap, OF a c d]
  obtain e' h' where r: "evolve demo_env 3 demo_heap = (Inr (RetPair (individuals demo_env) (history demo_env)), e', h')"
    and l: "length (hists h' (history e')) = nat 3 + length (hists demo_heap (history demo_env))"
    by blast
  have r': "evolve demo_env 3 demo_heap = (Inr (RetPair 0 0), e', h')"
    using r by (simp add: demo_env_def)
  have l': "length (hists h' (history e')) = 3"
    using l by (simp add: demo_env_def demo_heap_def)
  show ?thesis using r' l' v by blast
qed

subsection \<open>Best-ever tracks the running maximum\<close>

text \<open>Only \<open>execute\<close> assigns \<open>best_ever\<close>: the other methods of the class keep it.\<close>

lemma deactivate_keeps_best_ever: "best_ever (deactivate e) = best_ever e"
  by (simp add: deactivate_def)

lemma compile_keeps_best_ever:
  "compile e ff individuals_arg callback_arg v h = (r, e1, h1) \<Longrightarrow> best_ever e1 = best_ever e"
  by (auto simp: compile_def Let_def split: arg.splits option.splits prod.splits)

text \<open>
  Claim C2. Take the generations an environment completes over its lifetime:
  generation \<open>i\<close> starts in state \<open>pre i\<close> and \<open>execute\<close> ends it in state \<open>post i\<close>.
  Between generations anything but \<open>best_ever\<close> may change (no other method of the
  file assigns it), and the constructor leaves it unset. Then after every generation
  best-ever is set, its fitness is the maximum of the last candidate's fitness over
  the generations completed so far, it never decreases, it is a clone of the last
  candidate after the first generation, and later it is replaced by a clone of the
  last candidate exactly when that candidate's fitness is strictly greater (on a tie
  the snapshot stays).
\<close>

theorem best_ever_is_running_maximum:
  fixes pre post :: "nat \<Rightarrow> ('w, 'z) env_scheme \<times> 'w heap"
  assumes steps: "\<forall>i<n. execute (fst (pre i)) (snd (pre i)) = (Inr (), post i)"
    and fresh: "best_ever (fst (pre 0)) = None"
    and link: "\<forall>i. Suc i < n \<longrightarrow> best_ever (fst (pre (Suc i))) = best_ever (fst (post i))"
  shows "\<forall>i<n. \<exists>b. best_ever (fst (post i)) = Some b \<and>
           fitness b = Max ((\<lambda>j. fitness (representative (post j))) ` {..i}) \<and>
           (i = 0 \<longrightarrow> b = copy (representative (post 0))) \<and>
           (\<forall>j b'. i = Suc j \<and> best_ever (fst (post j)) = Some b' \<longrightarrow>
              fitness b' \<le> fitness b \<and>
              (if fitness (representative (post i)) > fitness b'
               then b = copy (representative (post i)) else b = b'))"
proof (intro allI impI)
  fix i assume "i < n"
  then show "\<exists>b. best_ever (fst (post i)) = Some b \<and>
           fitness b = Max ((\<lambda>j. fitness (representative (post j))) ` {..i}) \<and>
           (i = 0 \<longrightarrow> b = copy (representative (post 0))) \<and>
           (\<forall>j b'. i = Suc j \<and> best_ever (fst (post j)) = Some b' \<longrightarrow>
              fitness b' \<le> fitness b \<and>
              (if fitness (representative (post i)) > fitness b'
               then b = copy (representative (post i)) else b = b'))"
  proof (induction i)
    case 0
    have ex: "execute (fst (pre 0)) (snd (pre 0)) = (Inr (), fst (post 0), snd (post 0))"
      using steps 0 by simp
    have "best_ever (fst (post 0)) = Some (copy (representative (post 0)))"
      using execute_best_ever[OF ex] fresh by simp
    then show ?case by (simp add: copy_def)
  next
    case (Suc i)
    then have "i < n" by simp
    from Suc.IH[OF this] obtain b' where
      b': "best_ever (fst (post i)) = Some b'"
      and mx: "fitness b' = Max ((\<lambda>j. fitness (representative (post j))) ` {..i})"
      by blast
    have ex: "execute (fst (pre (Suc i))) (snd (pre (Suc i))) = (Inr (), fst (post (Suc i)), snd (post (Suc i)))"
      using steps Suc.prems by simp
    have pre_best: "best_ever (fst (pre (Suc i))) = Some b'"
      using link Suc.prems b' by simp
    let ?r = "fitness (representative (post (Suc i)))"
    have new: "best_ever (fst (post (Suc i))) =
                 (if ?r > fitness b' then Some (copy (representative (post (Suc i)))) else Some b')"
      using execute_best_ever[OF ex] pre_best by simp
    have set_eq: "{..Suc i} = insert (Suc i) {..i}" by auto
    have Max_eq: "Max ((\<lambda>j. fitness (representative (post j))) ` {..Suc i}) = max ?r (fitness b')"
      unfolding set_eq using mx by simp
    show ?case
    proof (cases "?r > fitness b'")
      case True
      then show ?thesis using new b' Max_eq by (simp add: copy_def)
    next
      case False
      then show ?thesis using new b' Max_eq by simp
    qed
  qed
qed

lemma demo_pre_0: "demo_pre 0 = (demo_env, demo_heap)"
  by (simp add: demo_pre_def range_int_0 demo_env_def)

lemma demo_post_0: "execute demo_env demo_heap = (Inr (), demo_post 0)"
  by (simp add: demo_post_def range_int_1 demo_simps)

lemma demo_step_1: "execute (fst (demo_pre 1)) (snd (demo_pre 1)) = (Inr (), demo_post 1)"
  by (simp add: demo_pre_def demo_post_def range_int_1 range_int_2 demo_simps)

theorem best_ever_is_running_maximum_witness:
  "\<exists>b. best_ever (fst (demo_post 1)) = Some b \<and> fitness b = Fin 2 \<and>
     fitness b = Max ((\<lambda>j. fitness (representative (demo_post j))) ` {..1})"
proof -
  have steps: "\<forall>i<2. execute (fst (demo_pre i)) (snd (demo_pre i)) = (Inr (), demo_post i)"
    using demo_post_0 demo_step_1 by (simp add: less_2_cases_iff demo_pre_0)
  have fresh: "best_ever (fst (demo_pre 0)) = None"
    by (simp add: demo_pre_0 demo_env_def)
  have link: "\<forall>i. Suc i < 2 \<longrightarrow> best_ever (fst (demo_pre (Suc i))) = best_ever (fst (demo_post i))"
    by (simp add: demo_pre_def demo_post_def range_int_1 demo_simps)
  have v: "best_ever (fst (demo_post 1)) = Some \<lparr>fitness = Fin 2, genes = []\<rparr>"
    by (simp add: demo_post_def range_int_2 demo_simps)
  have one: "(1::nat) < 2" by simp
  from best_ever_is_running_maximum[OF steps fresh link, rule_format, OF one]
  obtain b where b: "best_ever (fst (demo_post 1)) = Some b"
    and m: "fitness b = Max ((\<lambda>j. fitness (representative (demo_post j))) ` {..1})"
    by blast
  have "fitness b = Fin 2" using b v by simp
  then show ?thesis using b m by blast
qed

subsection \<open>An empty population is fatal\<close>

text \<open>
  Claim C3. When the first \<open>k\<close> generations of \<open>evolve N\<close> complete and generation
  \<open>k < N\<close> leaves the population empty after the stages and the callback, that step
  raises \<open>NoIndividualsAtEndOfRun\<close>, \<open>evolve\<close> raises the same error in the same
  state (no further generation runs), and best-ever and the history are what they
  were before the failed generation.
\<close>

theorem empty_population_is_fatal:
  assumes "\<not> deactivated e" and "k < nat N"
    and "evolve_loop (range_int (int k)) (e\<lparr>generations := N\<rparr>) h = (Inr (), e1, h1)"
    and "pops (after_stages (e1\<lparr>iteration := int k\<rparr>) h1) (individuals e1) = []"
  shows "\<exists>e2 h2. execute (e1\<lparr>iteration := int k\<rparr>) h1 = (Inl NoIndividualsAtEndOfRun, e2, h2) \<and>
           evolve e N h = (Inl NoIndividualsAtEndOfRun, e2, h2) \<and>
           best_ever e2 = best_ever e1 \<and> history e2 = history e1 \<and>
           hists h2 (history e2) = hists h1 (history e1)"
proof -
  let ?e = "e1\<lparr>iteration := int k\<rparr>"
  have ex: "execute ?e h1 = (Inl NoIndividualsAtEndOfRun, ?e, after_stages ?e h1)"
    using assms(4) by (intro execute_empty) simp
  have "evolve_loop (range_int N) (e\<lparr>generations := N\<rparr>) h = (Inl NoIndividualsAtEndOfRun, ?e, after_stages ?e h1)"
    using assms(3) ex by (simp add: range_int_split[OF assms(2)] evolve_loop_append)
  then have "evolve e N h = (Inl NoIndividualsAtEndOfRun, ?e, after_stages ?e h1)"
    using assms(1) by (simp add: evolve_def)
  then show ?thesis using ex by (simp add: after_stages_frame)
qed

lemmas fragile_simps = fragile_env_def fragile_stage_def demo_simps

theorem empty_population_is_fatal_witness:
  "\<exists>e2 h2. evolve fragile_env 5 demo_heap = (Inl NoIndividualsAtEndOfRun, e2, h2) \<and>
     hists h2 (history e2) = [Fin 1, Fin 2] \<and> map_option fitness (best_ever e2) = Some (Fin 2)"
proof -
  let ?e1 = "fst (snd (evolve_loop (range_int (int 2)) (fragile_env\<lparr>generations := 5\<rparr>) demo_heap))"
  let ?h1 = "snd (snd (evolve_loop (range_int (int 2)) (fragile_env\<lparr>generations := 5\<rparr>) demo_heap))"
  have a: "\<not> deactivated fragile_env" by (simp add: fragile_simps)
  have b: "2 < nat 5" by simp
  have c: "evolve_loop (range_int (int 2)) (fragile_env\<lparr>generations := 5\<rparr>) demo_heap = (Inr (), ?e1, ?h1)"
    by (simp add: range_int_2 fragile_simps)
  have d: "pops (after_stages (?e1\<lparr>iteration := int 2\<rparr>) ?h1) (individuals ?e1) = []"
    by (simp add: range_int_2 fragile_simps)
  have v: "hists ?h1 (history ?e1) = [Fin 1, Fin 2]" "map_option fitness (best_ever ?e1) = Some (Fin 2)"
    by (simp_all add: range_int_2 fragile_simps)
  from empty_population_is_fatal[OF a b c d]
  obtain e2 h2 where r: "evolve fragile_env 5 demo_heap = (Inl NoIndividualsAtEndOfRun, e2, h2)"
    and k: "best_ever e2 = best_ever ?e1" "history e2 = history ?e1"
      "hists h2 (history e2) = hists ?h1 (history ?e1)"
    by blast
  show ?thesis using r k v by simp
qed

subsection \<open>A deactivated environment does not evolve\<close>

text \<open>
  Claim C8. On a deactivated environment \<open>evolve N\<close> returns the population it holds
  and changes nothing: the environment (its iteration index included) and the store
  (the history and the population contents included) are returned as they were.
\<close>

theorem deactivated_evolve_is_noop:
  assumes "deactivated e"
  shows "evolve e N h = (Inr (RetPop (individuals e)), e, h)"
  using assms by (simp add: evolve_def)

theorem deactivated_evolve_is_noop_witness:
  "evolve (demo_env\<lparr>deactivated := True\<rparr>) 3 demo_heap =
     (Inr (RetPop 0), demo_env\<lparr>deactivated := True\<rparr>, demo_heap)"
  using deactivated_evolve_is_noop[of "demo_env\<lparr>deactivated := True\<rparr>" 3 demo_heap]
  by (simp add: demo_env_def)

section \<open>Properties of the composites\<close>

lemmas duel_simps = duel_heap_def raw_heap_def env_A_def env_B_def composite_base_def
  duel_def relay_def pool_def env.extend_def adversarial.fields_def chronological.fields_def
  adaptive.fields_def still_clock_def first_draw_def

lemmas run_simps = evolve_at_def evolve_def range_int_0 range_int_1 range_int_2 unpack_pair_def
  new_hist_def new_pop_def

subsection \<open>Constructors\<close>

text \<open>
  Claim C9. Constructing an \<open>Environment\<close> without a list of stages raises
  \<open>TypeError\<close> (the constructor iterates its \<open>layers\<close> argument, which is \<open>None\<close>) and
  yields no object; the constructors of \<open>ChronologicalEnvironment\<close> and
  \<open>AdaptiveEnvironment\<close>, which hand no stages to the base constructor, raise the same
  error for every argument.
\<close>

theorem constructors_without_layers_raise:
  "Environment_init None name_arg verbose_every_arg fit h = (Inl TypeError, h) \<and>
   ChronologicalEnvironment_init egs name_arg fit h = (Inl TypeError, h) \<and>
   AdaptiveEnvironment_init environments_arg switch_every_arg go_for_arg name_arg fit h = (Inl TypeError, h)"
  by (simp add: Environment_init_def ChronologicalEnvironment_init_def AdaptiveEnvironment_init_def)

subsection \<open>compile of a composite\<close>

lemma compile_at_Omitted: "compile_at a Omitted i c v h = (Inl TypeError, h)"
  by (simp add: compile_at_def compile_def)

lemma compile_sub_environments_eq:
  "compile_sub_environments as v h =
     (if list_all (\<lambda>a. compiled (envs h a)) as then (Inr (), h) else (Inl TypeError, h))"
  by (induction as) (simp_all add: compile_at_Omitted)

text \<open>
  Claim C4. \<open>compile\<close> of a composite is to hand the fitness function, the callback
  and the report interval to every sub-environment not yet compiled. The code calls
  the sub-environment's \<open>compile\<close> with \<open>verbose_every\<close> alone, which raises
  \<open>TypeError\<close> for the missing \<open>fitness_function\<close>: over the store in which \<open>A\<close> is
  not compiled, all three composites raise, and \<open>A\<close> is left uncompiled with no
  fitness function.
\<close>

theorem composite_compile_raises_on_uncompiled:
  "fst (Adversarial_compile duel (Some sum_list) None None 1 raw_heap) = Inl TypeError \<and>
   fst (ChronologicalEnvironment_compile relay (Some sum_list) None None 1 raw_heap) = Inl TypeError \<and>
   fst (AdaptiveEnvironment_compile pool (Some sum_list) None None 1 raw_heap) = Inl TypeError \<and>
   fitness_function (envs (snd (snd (Adversarial_compile duel (Some sum_list) None None 1 raw_heap))) 1) = None \<and>
   \<not> compiled (envs (snd (snd (Adversarial_compile duel (Some sum_list) None None 1 raw_heap))) 1)"
  by (simp add: Adversarial_compile_def ChronologicalEnvironment_compile_def AdaptiveEnvironment_compile_def
      compile_def new_pop_def compile_sub_environments_eq duel_simps demo_env_def Let_def)

subsection \<open>Adversarial.evolve returns the first maximum\<close>

lemma adversarial_runs_acc:
  "adversarial_runs clock cb g as acc h =
     (case adversarial_runs clock cb g as [] h of
        (Inl err, h1) \<Rightarrow> (Inl err, h1)
      | (Inr rs, h1) \<Rightarrow> (Inr (acc @ rs), h1))"
proof (induction as arbitrary: acc h)
  case Nil
  show ?case by simp
next
  case (Cons a as)
  show ?case
  proof (cases "adversarial_run clock cb g a h")
    case (Pair r h1)
    show ?thesis
    proof (cases r)
      case (Inl err)
      then show ?thesis using Pair by simp
    next
      case (Inr row)
      have 1: "adversarial_runs clock cb g (a # as) acc h = adversarial_runs clock cb g as (acc @ [row]) h1"
        using Pair Inr by simp
      have 2: "adversarial_runs clock cb g (a # as) [] h = adversarial_runs clock cb g as [row] h1"
        using Pair Inr by simp
      show ?thesis
        unfolding 1 2
        by (subst Cons.IH[of "acc @ [row]"], subst Cons.IH[of "[row]"])
           (simp split: prod.splits sum.splits)
    qed
  qed
qed

lemma adversarial_runs_append:
  "adversarial_runs clock cb g (xs @ ys) acc h =
     (case adversarial_runs clock cb g xs acc h of
        (Inl err, h1) \<Rightarrow> (Inl err, h1)
      | (Inr rs, h1) \<Rightarrow> adversarial_runs clock cb g ys rs h1)"
  by (induction xs arbitrary: acc h) (auto split: prod.splits sum.splits)

lemma adversarial_runs_length:
  "adversarial_runs clock cb g as acc h = (Inr rs, h1) \<Longrightarrow> length rs = length acc + length as"
  by (induction as arbitrary: acc h) (auto split: prod.splits sum.splits)

lemma adversarial_run_Inr:
  assumes "adversarial_run clock cb g a h = (Inr row, h')"
  shows "\<exists>p hs h2. evolve_at a g (h\<lparr>world := snd (clock (world h))\<rparr>) = (Inr (RetPair p hs), h2) \<and>
           hists h2 hs \<noteq> [] \<and>
           row = (name (envs h2 a), last (hists h2 hs), fst (clock (world h2)) - fst (clock (world h)))"
  using assms
  by (auto simp: adversarial_run_def unpack_pair_def Let_def
      split: prod.splits sum.splits unpacked.splits evolve_ret.splits list.splits if_splits option.splits)

lemma adversarial_run_ok:
  assumes "evolve_at a g (h\<lparr>world := snd (clock (world h))\<rparr>) = (Inr (RetPair p hs), h2)"
    and "hists h2 hs \<noteq> []"
  shows "\<exists>row h'. adversarial_run clock cb g a h = (Inr row, h')"
  using assms
  by (auto simp: adversarial_run_def unpack_pair_def Let_def split: prod.splits option.splits)

lemma max_from_first:
  "\<exists>pre post. best # xs = pre @ max_from best xs # post \<and>
     (\<forall>x\<in>set pre. fst (snd x) < fst (snd (max_from best xs))) \<and>
     (\<forall>x\<in>set post. fst (snd x) \<le> fst (snd (max_from best xs)))"
proof (induction xs arbitrary: best)
  case Nil
  show ?case by (rule exI[of _ "[]"], rule exI[of _ "[]"]) simp
next
  case (Cons x xs)
  show ?case
  proof (cases "fst (snd x) > fst (snd best)")
    case True
    define m where "m = max_from x xs"
    from Cons.IH[of x] obtain pre post where
      d: "x # xs = pre @ m # post"
      and lo: "\<forall>y\<in>set pre. fst (snd y) < fst (snd m)"
      and hi: "\<forall>y\<in>set post. fst (snd y) \<le> fst (snd m)"
      unfolding m_def by blast
    have "fst (snd x) \<le> fst (snd m)"
    proof (cases pre)
      case Nil
      then show ?thesis using d by simp
    next
      case (Cons y ys)
      then have "x \<in> set pre" using d by simp
      then show ?thesis using lo by force
    qed
    then have b: "fst (snd best) < fst (snd m)" using True by simp
    have 1: "best # x # xs = (best # pre) @ m # post" using d by simp
    have 2: "\<forall>y\<in>set (best # pre). fst (snd y) < fst (snd m)"
      using lo b by simp
    have 3: "max_from best (x # xs) = m" using True by (simp add: m_def)
    show ?thesis unfolding 3 using 1 2 hi by blast
  next
    case False
    define m where "m = max_from best xs"
    from Cons.IH[of best] obtain pre post where
      d: "best # xs = pre @ m # post"
      and lo: "\<forall>y\<in>set pre. fst (snd y) < fst (snd m)"
      and hi: "\<forall>y\<in>set post. fst (snd y) \<le> fst (snd m)"
      unfolding m_def by blast
    have 3: "max_from best (x # xs) = m" using False by (simp add: m_def)
    show ?thesis
    proof (cases pre)
      case Nil
      then have e: "m = best" "post = xs" using d by simp_all
      have 1: "best # x # xs = [] @ m # (x # xs)" using e by simp
      have 2: "\<forall>y\<in>set (x # xs). fst (snd y) \<le> fst (snd m)"
        using hi e False by auto
      have 0: "\<forall>y\<in>set []. fst (snd y) < fst (snd m)" by simp
      show ?thesis unfolding 3 using 0 1 2 by blast
    next
      case (Cons y ys)
      then have e: "y = best" "xs = ys @ m # post" using d by simp_all
      have bl: "fst (snd best) < fst (snd m)" using lo Cons e(1) by simp
      have 1: "best # x # xs = (best # x # ys) @ m # post" using e(2) by simp
      have 2: "\<forall>z\<in>set (best # x # ys). fst (snd z) < fst (snd m)"
        using lo Cons e(1) bl False by auto
      show ?thesis unfolding 3 using 1 2 hi by blast
    qed
  qed
qed


lemma adversarial_runs_prefix:
  assumes "adversarial_runs clock cb g as [] h = (Inr rs, h1)" and "i < length as"
  shows "\<exists>hi h'. adversarial_runs clock cb g (take i as) [] h = (Inr (take i rs), hi) \<and>
           adversarial_run clock cb g (as ! i) hi = (Inr (rs ! i), h')"
proof -
  have split: "as = take i as @ (as ! i # drop (Suc i) as)"
    using assms(2) by (simp add: id_take_nth_drop[symmetric])
  obtain r0 hi where p: "adversarial_runs clock cb g (take i as) [] h = (r0, hi)"
    by (cases "adversarial_runs clock cb g (take i as) [] h")
  have whole: "adversarial_runs clock cb g (take i as @ (as ! i # drop (Suc i) as)) [] h = (Inr rs, h1)"
    using assms(1) split by simp
  from whole p obtain rsi where r0: "r0 = Inr rsi"
    and rest: "adversarial_runs clock cb g (as ! i # drop (Suc i) as) rsi hi = (Inr rs, h1)"
    by (cases r0) (simp_all add: adversarial_runs_append)
  obtain r1 h' where one: "adversarial_run clock cb g (as ! i) hi = (r1, h')"
    by (cases "adversarial_run clock cb g (as ! i) hi")
  from rest one obtain row where r1: "r1 = Inr row"
    and tl: "adversarial_runs clock cb g (drop (Suc i) as) (rsi @ [row]) h' = (Inr rs, h1)"
    by (cases r1) simp_all
  have len: "length rsi = i"
    using adversarial_runs_length[OF p[unfolded r0]] assms(2) by simp
  obtain more where rs: "rs = (rsi @ [row]) @ more"
    using tl by (subst (asm) adversarial_runs_acc) (auto split: prod.splits sum.splits)
  have "take i rs = rsi" "rs ! i = row"
    using len rs by (simp_all add: nth_append)
  then show ?thesis using p r0 one r1 by simp
qed

text \<open>
  Claim C5. Let the list of sub-environments be non-empty and let every run produce
  a non-empty history: run \<open>i\<close>, started in the state \<open>before i\<close> that the runs before
  it leave, after the clock was read, returns a pair whose history is not empty.
  Then \<open>Adversarial.evolve\<close> returns a row \<open>r\<close> of the list \<open>results\<close>, which holds for
  each sub-environment in order its name, the last value of the history its run
  returned and the duration; every row before \<open>r\<close> has a strictly smaller final
  value and every row after it has none greater, so \<open>r\<close> is the first row with the
  maximal final value.
\<close>

theorem adversarial_evolve_returns_first_maximum:
  fixes s :: "'w adversarial" and clock g h
  defines "before \<equiv> \<lambda>i. snd (adversarial_runs clock (callback s) g (take i (environments s)) [] h)"
  assumes "environments s \<noteq> []"
    and "\<forall>i<length (environments s). \<exists>p hs h2.
           evolve_at (environments s ! i) g ((before i)\<lparr>world := snd (clock (world (before i)))\<rparr>)
             = (Inr (RetPair p hs), h2) \<and> hists h2 hs \<noteq> []"
  shows "\<exists>results h1 pre r post.
           Adversarial_evolve clock s g h = (Inr r, h1) \<and>
           length results = length (environments s) \<and>
           results = pre @ r # post \<and>
           (\<forall>x\<in>set pre. fst (snd x) < fst (snd r)) \<and>
           (\<forall>x\<in>set post. fst (snd x) \<le> fst (snd r)) \<and>
           (\<forall>i<length (environments s). \<exists>p hs h2.
              evolve_at (environments s ! i) g ((before i)\<lparr>world := snd (clock (world (before i)))\<rparr>)
                = (Inr (RetPair p hs), h2) \<and>
              results ! i = (name (envs h2 (environments s ! i)), last (hists h2 hs),
                             fst (clock (world h2)) - fst (clock (world (before i)))))"
proof -
  let ?as = "environments s"
  let ?cb = "callback s"
  have pre: "i \<le> length ?as \<Longrightarrow> \<exists>rs. adversarial_runs clock ?cb g (take i ?as) [] h = (Inr rs, before i)" for i
  proof (induction i)
    case 0
    show ?case by (simp add: before_def)
  next
    case (Suc i)
    then have i: "i < length ?as" by simp
    from Suc.IH i obtain rs where rs: "adversarial_runs clock ?cb g (take i ?as) [] h = (Inr rs, before i)"
      by auto
    from assms(3) i obtain p hs h2 where
      ok: "evolve_at (?as ! i) g ((before i)\<lparr>world := snd (clock (world (before i)))\<rparr>) = (Inr (RetPair p hs), h2)"
      "hists h2 hs \<noteq> []" by blast
    from adversarial_run_ok[where h="before i" and clock=clock and cb="?cb", OF ok] obtain row h' where
      row: "adversarial_run clock ?cb g (?as ! i) (before i) = (Inr row, h')" by blast
    have "adversarial_runs clock ?cb g (take (Suc i) ?as) [] h = (Inr (rs @ [row]), h')"
      using i rs row by (simp add: take_Suc_conv_app_nth adversarial_runs_append)
    moreover from this have "before (Suc i) = h'" by (simp add: before_def)
    ultimately show ?case by simp
  qed
  from pre[of "length ?as"] obtain results where
    runs: "adversarial_runs clock ?cb g ?as [] h = (Inr results, before (length ?as))" by auto
  have len: "length results = length ?as"
    using adversarial_runs_length[OF runs] by simp
  then obtain r0 rest where res: "results = r0 # rest"
    using assms(2) by (cases results) auto
  define r where "r = max_from r0 rest"
  from max_from_first[of r0 rest] obtain pre0 post where
    dec: "results = pre0 @ r # post"
    and lo: "\<forall>x\<in>set pre0. fst (snd x) < fst (snd r)"
    and hi: "\<forall>x\<in>set post. fst (snd x) \<le> fst (snd r)"
    unfolding r_def res by blast
  have ev: "Adversarial_evolve clock s g h = (Inr r, before (length ?as))"
    using runs res by (simp add: Adversarial_evolve_def max_by_fitness_def r_def)
  have rows: "\<forall>i<length ?as. \<exists>p hs h2.
              evolve_at (?as ! i) g ((before i)\<lparr>world := snd (clock (world (before i)))\<rparr>)
                = (Inr (RetPair p hs), h2) \<and>
              results ! i = (name (envs h2 (?as ! i)), last (hists h2 hs),
                             fst (clock (world h2)) - fst (clock (world (before i))))"
  proof (intro allI impI)
    fix i assume i: "i < length ?as"
    from adversarial_runs_prefix[OF runs i] obtain hi h' where
      p: "adversarial_runs clock ?cb g (take i ?as) [] h = (Inr (take i results), hi)"
      and one: "adversarial_run clock ?cb g (?as ! i) hi = (Inr (results ! i), h')"
      by blast
    have "hi = before i" using p by (simp add: before_def)
    with adversarial_run_Inr[OF one]
    show "\<exists>p hs h2.
              evolve_at (?as ! i) g ((before i)\<lparr>world := snd (clock (world (before i)))\<rparr>)
                = (Inr (RetPair p hs), h2) \<and>
              results ! i = (name (envs h2 (?as ! i)), last (hists h2 hs),
                             fst (clock (world h2)) - fst (clock (world (before i))))"
      by blast
  qed
  show ?thesis using ev len dec lo hi rows by blast
qed

lemma duel_run:
  "Adversarial_evolve still_clock duel 1 duel_heap =
     (Inr (''B'', Fin 8, 0), snd (Adversarial_evolve still_clock duel 1 duel_heap))"
  by (simp add: Adversarial_evolve_def adversarial_run_def max_by_fitness_def duel_simps run_simps demo_simps)

theorem adversarial_evolve_returns_first_maximum_witness:
  "\<exists>(results :: result list) h1 pre post.
     Adversarial_evolve still_clock duel 1 duel_heap = (Inr (''B'', Fin 8, 0), h1) \<and>
     length results = 2 \<and> results = pre @ (''B'', Fin 8, 0) # post \<and>
     results ! 0 = (''A'', Fin 5, 0)"
proof -
  let ?before = "\<lambda>i. snd (adversarial_runs still_clock (callback duel) 1 (take i (environments duel)) [] duel_heap)"
  let ?start = "\<lambda>i. (?before i)\<lparr>world := snd (still_clock (world (?before i)))\<rparr>"
  have a: "environments duel \<noteq> []" by (simp add: duel_simps)
  have n: "length (environments duel) = 2" by (simp add: duel_simps)
  have b0: "\<exists>p hs h2. evolve_at (environments duel ! 0) 1 (?start 0) = (Inr (RetPair p hs), h2) \<and> hists h2 hs \<noteq> []"
    by (simp add: adversarial_run_def duel_simps run_simps demo_simps)
  have b1: "\<exists>p hs h2. evolve_at (environments duel ! 1) 1 (?start 1) = (Inr (RetPair p hs), h2) \<and> hists h2 hs \<noteq> []"
    by (simp add: adversarial_run_def duel_simps run_simps demo_simps)
  have b: "\<forall>i<length (environments duel). \<exists>p hs h2.
           evolve_at (environments duel ! i) 1 (?start i) = (Inr (RetPair p hs), h2) \<and> hists h2 hs \<noteq> []"
    unfolding n using b0 b1 by (auto simp: less_2_cases_iff)
  from adversarial_evolve_returns_first_maximum[OF a b]
  obtain results h1 pre r post where
    ev: "Adversarial_evolve still_clock duel 1 duel_heap = (Inr r, h1)"
    and len: "length results = length (environments duel)"
    and dec: "results = pre @ r # post"
    and rows: "\<forall>i<length (environments duel). \<exists>p hs h2.
              evolve_at (environments duel ! i) 1 (?start i) = (Inr (RetPair p hs), h2) \<and>
              results ! i = (name (envs h2 (environments duel ! i)), last (hists h2 hs),
                             fst (still_clock (world h2)) - fst (still_clock (world (?before i))))"
    by blast
  have r: "r = (''B'', Fin 8, 0)" using ev duel_run by simp
  have len2: "length results = 2" using len n by simp
  have "0 < length (environments duel)" using n by simp
  with rows have "\<exists>p hs h2.
              evolve_at (environments duel ! 0) 1 (?start 0) = (Inr (RetPair p hs), h2) \<and>
              results ! 0 = (name (envs h2 (environments duel ! 0)), last (hists h2 hs),
                             fst (still_clock (world h2)) - fst (still_clock (world (?before 0))))"
    by blast
  then have row0: "results ! 0 = (''A'', Fin 5, 0)"
    by (auto simp: duel_simps run_simps demo_simps)
  show ?thesis using ev r len2 dec row0 by blast
qed

subsection \<open>What evolve touches\<close>

lemma execute_frame:
  assumes "execute e h = (r, e1, h1)"
  shows "envs h1 = envs h \<and> next_pop h1 = next_pop h \<and> next_hist h1 = next_hist h \<and>
         name e1 = name e \<and>
         (\<forall>q. q \<noteq> individuals e \<longrightarrow> pops h1 q = pops h q) \<and>
         (\<forall>q. q \<noteq> history e \<longrightarrow> hists h1 q = hists h q) \<and>
         (\<exists>reps. hists h1 (history e) = hists h (history e) @ reps \<and>
                 length reps \<le> 1 \<and> (r = Inr () \<longrightarrow> length reps = 1)) \<and>
         (r = Inr () \<longrightarrow> pops h1 (individuals e) \<noteq> [])"
proof (cases "pops (after_stages e h) (individuals e) = []")
  case True
  have "(r, e1, h1) = (Inl NoIndividualsAtEndOfRun, e, after_stages e h)"
    using execute_empty[OF True] assms by simp
  then have e: "r = Inl NoIndividualsAtEndOfRun" "e1 = e" "h1 = after_stages e h" by simp_all
  have "\<exists>reps. hists h1 (history e) = hists h (history e) @ reps \<and>
                 length reps \<le> 1 \<and> (r = Inr () \<longrightarrow> length reps = 1)"
    by (rule exI[of _ "[]"]) (simp add: e after_stages_frame)
  then show ?thesis using e after_stages_frame[of e h] by simp
next
  case False
  from execute_nonempty[OF False] assms have r: "r = Inr ()" by auto
  have h1: "h1 = (after_stages e h)\<lparr>hists := (hists h)(history e := hists h (history e) @
              [fitness (last (pops (after_stages e h) (individuals e)))])\<rparr>"
    using execute_Inr(3)[of e h] assms r by simp
  have n: "name e1 = name e"
    using assms by (auto simp: execute_def Let_def split: if_splits option.splits)
  have "\<exists>reps. hists h1 (history e) = hists h (history e) @ reps \<and>
                 length reps \<le> 1 \<and> (r = Inr () \<longrightarrow> length reps = 1)"
    by (rule exI[of _ "[fitness (last (pops (after_stages e h) (individuals e)))]"]) (simp add: h1)
  then show ?thesis using False n after_stages_frame[of e h] by (simp add: h1)
qed

lemma evolve_loop_frame:
  assumes "evolve_loop xs e h = (r, e1, h1)"
  shows "individuals e1 = individuals e \<and> history e1 = history e \<and> name e1 = name e \<and>
         deactivated e1 = deactivated e \<and> layers e1 = layers e \<and> callback e1 = callback e \<and>
         envs h1 = envs h \<and> next_pop h1 = next_pop h \<and> next_hist h1 = next_hist h \<and>
         (\<forall>q. q \<noteq> individuals e \<longrightarrow> pops h1 q = pops h q) \<and>
         (\<forall>q. q \<noteq> history e \<longrightarrow> hists h1 q = hists h q) \<and>
         (\<exists>reps. hists h1 (history e) = hists h (history e) @ reps \<and>
                 length reps \<le> length xs \<and> (r = Inr () \<longrightarrow> length reps = length xs)) \<and>
         (r = Inr () \<longrightarrow> pops h (individuals e) \<noteq> [] \<longrightarrow> pops h1 (individuals e) \<noteq> [])"
  using assms
proof (induction xs arbitrary: e h)
  case Nil
  then have e: "r = Inr ()" "e1 = e" "h1 = h" by simp_all
  have "\<exists>reps. hists h1 (history e) = hists h (history e) @ reps \<and>
                 length reps \<le> length [] \<and> (r = Inr () \<longrightarrow> length reps = length [])"
    by (rule exI[of _ "[]"]) (simp add: e)
  then show ?case using e by simp
next
  case (Cons i xs)
  let ?e0 = "e\<lparr>iteration := i\<rparr>"
  obtain r0 e0 h0 where ex: "execute ?e0 h = (r0, e0, h0)"
    by (cases "execute ?e0 h") auto
  have k: "layers e0 = layers e" "callback e0 = callback e" "individuals e0 = individuals e"
    "history e0 = history e" "deactivated e0 = deactivated e"
    using execute_keeps[OF ex] by simp_all
  from execute_frame[OF ex] obtain reps0 where
    f: "envs h0 = envs h" "next_pop h0 = next_pop h" "next_hist h0 = next_hist h" "name e0 = name e"
      "\<forall>q. q \<noteq> individuals e \<longrightarrow> pops h0 q = pops h q"
      "\<forall>q. q \<noteq> history e \<longrightarrow> hists h0 q = hists h q"
    and hs0: "hists h0 (history e) = hists h (history e) @ reps0"
    and l0: "length reps0 \<le> 1" "r0 = Inr () \<longrightarrow> length reps0 = 1"
    and ne0: "r0 = Inr () \<longrightarrow> pops h0 (individuals e) \<noteq> []"
    by (simp, blast)
  show ?case
  proof (cases r0)
    case (Inl err)
    then have e: "r = Inl err" "e1 = e0" "h1 = h0" using Cons.prems ex by simp_all
    have "\<exists>reps. hists h1 (history e) = hists h (history e) @ reps \<and>
                 length reps \<le> length (i # xs) \<and> (r = Inr () \<longrightarrow> length reps = length (i # xs))"
      by (rule exI[of _ reps0]) (use e hs0 l0 in simp)
    then show ?thesis using e k f by simp
  next
    case (Inr u)
    then have loop: "evolve_loop xs e0 h0 = (r, e1, h1)" using Cons.prems ex by simp
    from Cons.IH[OF loop] obtain reps where
      g: "individuals e1 = individuals e0" "history e1 = history e0" "name e1 = name e0"
        "deactivated e1 = deactivated e0" "layers e1 = layers e0" "callback e1 = callback e0"
        "envs h1 = envs h0" "next_pop h1 = next_pop h0" "next_hist h1 = next_hist h0"
        "\<forall>q. q \<noteq> individuals e0 \<longrightarrow> pops h1 q = pops h0 q"
        "\<forall>q. q \<noteq> history e0 \<longrightarrow> hists h1 q = hists h0 q"
      and hs: "hists h1 (history e0) = hists h0 (history e0) @ reps"
      and l: "length reps \<le> length xs" "r = Inr () \<longrightarrow> length reps = length xs"
      and ne: "r = Inr () \<longrightarrow> pops h0 (individuals e0) \<noteq> [] \<longrightarrow> pops h1 (individuals e0) \<noteq> []"
      by blast
    have "\<exists>reps. hists h1 (history e) = hists h (history e) @ reps \<and>
                 length reps \<le> length (i # xs) \<and> (r = Inr () \<longrightarrow> length reps = length (i # xs))"
      by (rule exI[of _ "reps0 @ reps"]) (use hs hs0 k l l0 Inr in auto)
    moreover have "r = Inr () \<longrightarrow> pops h1 (individuals e) \<noteq> []"
      using ne ne0 Inr k by simp
    ultimately show ?thesis using g k f by simp
  qed
qed

lemma evolve_frame:
  assumes "evolve e g h = (r, e1, h1)"
  shows "individuals e1 = individuals e \<and> history e1 = history e \<and> name e1 = name e \<and>
         deactivated e1 = deactivated e \<and> layers e1 = layers e \<and> callback e1 = callback e \<and>
         envs h1 = envs h \<and> next_pop h1 = next_pop h \<and> next_hist h1 = next_hist h \<and>
         (\<forall>q. q \<noteq> individuals e \<longrightarrow> pops h1 q = pops h q) \<and>
         (\<forall>q. q \<noteq> history e \<longrightarrow> hists h1 q = hists h q) \<and>
         (\<exists>reps. hists h1 (history e) = hists h (history e) @ reps \<and>
                 length reps \<le> nat g \<and>
                 (\<forall>p hs. r = Inr (RetPair p hs) \<longrightarrow> length reps = nat g)) \<and>
         (\<forall>p hs. r = Inr (RetPair p hs) \<longrightarrow> p = individuals e \<and> hs = history e \<and> \<not> deactivated e) \<and>
         (\<forall>p. r = Inr (RetPop p) \<longrightarrow> p = individuals e \<and> deactivated e \<and> h1 = h) \<and>
         (\<forall>x. r = Inr x \<longrightarrow> pops h (individuals e) \<noteq> [] \<longrightarrow> pops h1 (individuals e) \<noteq> [])"
proof (cases "deactivated e")
  case True
  have "evolve e g h = (Inr (RetPop (individuals e)), e, h)"
    using True by (simp add: evolve_def)
  with assms have e: "r = Inr (RetPop (individuals e))" "e1 = e" "h1 = h"
    by auto
  have "\<exists>reps. hists h1 (history e) = hists h (history e) @ reps \<and>
                 length reps \<le> nat g \<and>
                 (\<forall>p hs. r = Inr (RetPair p hs) \<longrightarrow> length reps = nat g)"
    by (rule exI[of _ "[]"]) (simp add: e)
  then show ?thesis using True e by simp
next
  case False
  let ?e = "e\<lparr>generations := g\<rparr>"
  obtain r0 where loop: "evolve_loop (range_int g) ?e h = (r0, e1, h1)"
    and r: "r = (case r0 of Inl err \<Rightarrow> Inl err | Inr u \<Rightarrow> Inr (RetPair (individuals e1) (history e1)))"
    using assms False by (auto simp: evolve_def split: prod.splits sum.splits)
  from evolve_loop_frame[OF loop] obtain reps where
    g: "individuals e1 = individuals e" "history e1 = history e" "name e1 = name e"
      "deactivated e1 = deactivated e" "layers e1 = layers e" "callback e1 = callback e"
      "envs h1 = envs h" "next_pop h1 = next_pop h" "next_hist h1 = next_hist h"
      "\<forall>q. q \<noteq> individuals e \<longrightarrow> pops h1 q = pops h q"
      "\<forall>q. q \<noteq> history e \<longrightarrow> hists h1 q = hists h q"
    and hs: "hists h1 (history e) = hists h (history e) @ reps"
    and l: "length reps \<le> length (range_int g)" "r0 = Inr () \<longrightarrow> length reps = length (range_int g)"
    and ne: "r0 = Inr () \<longrightarrow> pops h (individuals e) \<noteq> [] \<longrightarrow> pops h1 (individuals e) \<noteq> []"
    by (simp, blast)
  have len: "length (range_int g) = nat g" by (simp add: range_int_def)
  have r0: "\<forall>x. r = Inr x \<longrightarrow> r0 = Inr () \<and> x = RetPair (individuals e) (history e)"
    using r g by (cases r0) auto
  have "\<exists>reps. hists h1 (history e) = hists h (history e) @ reps \<and>
                 length reps \<le> nat g \<and>
                 (\<forall>p hs. r = Inr (RetPair p hs) \<longrightarrow> length reps = nat g)"
    by (rule exI[of _ reps]) (use hs l len r0 in auto)
  then show ?thesis using g False r0 ne by auto
qed


lemma evolve_at_frame:
  assumes "evolve_at a g h = (r, h1)"
  shows "(\<forall>b. b \<noteq> a \<longrightarrow> envs h1 b = envs h b) \<and>
         individuals (envs h1 a) = individuals (envs h a) \<and>
         history (envs h1 a) = history (envs h a) \<and>
         name (envs h1 a) = name (envs h a) \<and>
         deactivated (envs h1 a) = deactivated (envs h a) \<and>
         layers (envs h1 a) = layers (envs h a) \<and>
         callback (envs h1 a) = callback (envs h a) \<and>
         next_pop h1 = next_pop h \<and> next_hist h1 = next_hist h \<and>
         (\<forall>q. q \<noteq> individuals (envs h a) \<longrightarrow> pops h1 q = pops h q) \<and>
         (\<forall>q. q \<noteq> history (envs h a) \<longrightarrow> hists h1 q = hists h q) \<and>
         (\<exists>reps. hists h1 (history (envs h a)) = hists h (history (envs h a)) @ reps \<and>
                 length reps \<le> nat g \<and>
                 (\<forall>p hs. r = Inr (RetPair p hs) \<longrightarrow> length reps = nat g)) \<and>
         (\<forall>p hs. r = Inr (RetPair p hs) \<longrightarrow>
            p = individuals (envs h a) \<and> hs = history (envs h a) \<and> \<not> deactivated (envs h a)) \<and>
         (\<forall>p. r = Inr (RetPop p) \<longrightarrow>
            p = individuals (envs h a) \<and> deactivated (envs h a) \<and> pops h1 = pops h \<and> hists h1 = hists h) \<and>
         (\<forall>x. r = Inr x \<longrightarrow> pops h (individuals (envs h a)) \<noteq> [] \<longrightarrow>
            pops h1 (individuals (envs h a)) \<noteq> [])"
proof -
  obtain e1 h0 where ev: "evolve (envs h a) g h = (r, e1, h0)"
    and h1: "h1 = h0\<lparr>envs := (envs h0)(a := e1)\<rparr>"
    using assms by (auto simp: evolve_at_def split: prod.splits)
  from evolve_frame[OF ev] show ?thesis
    by (simp add: h1)
qed

subsection \<open>AdaptiveEnvironment.evolve leaves the composite's own lists alone\<close>

lemma deactivate_unfit_frame:
  "pops (deactivate_unfit as h) = pops h \<and> hists (deactivate_unfit as h) = hists h \<and>
   (\<forall>b. individuals (envs (deactivate_unfit as h) b) = individuals (envs h b) \<and>
        history (envs (deactivate_unfit as h) b) = history (envs h b))"
  by (induction as arbitrary: h) (simp_all add: deactivate_def)

lemma smart_evolve_frame:
  assumes "smart_evolve draw s h = (r, h1)"
  shows "pops h1 = pops h \<and> hists h1 = hists h \<and>
         (\<forall>b. individuals (envs h1 b) = individuals (envs h b) \<and>
              history (envs h1 b) = history (envs h b))"
  using assms deactivate_unfit_frame[of "environments_pool s" h]
  by (auto simp: smart_evolve_def Let_def split: if_splits prod.splits sum.splits)

lemma adaptive_step_frame:
  assumes "adaptive_step draw s h = (r, s1, h1)"
  shows "individuals s1 = individuals s \<and> history s1 = history s \<and>
         individuals (envs h1 (current_environment s1)) = individuals (envs h (current_environment s)) \<and>
         history (envs h1 (current_environment s1)) = history (envs h (current_environment s)) \<and>
         (\<forall>q. q \<noteq> individuals (envs h (current_environment s)) \<longrightarrow> pops h1 q = pops h q) \<and>
         (\<forall>q. q \<noteq> history (envs h (current_environment s)) \<longrightarrow> hists h1 q = hists h q)"
proof -
  let ?s2 = "s\<lparr>iteration := iteration s + 1, current_generation := current_generation s + 1\<rparr>"
  obtain r0 h0 where sm: "smart_evolve draw ?s2 h = (r0, h0)"
    by (cases "smart_evolve draw ?s2 h") auto
  note f = smart_evolve_frame[OF sm]
  show ?thesis
  proof (cases r0)
    case (Inl err)
    then have "s1 = ?s2" "h1 = h0"
      using assms sm by (simp_all add: adaptive_step_def Let_def)
    then show ?thesis using f by simp
  next
    case (Inr new)
    let ?cur = "current_environment s"
    let ?h3 = "h0\<lparr>envs := (envs h0)(new := (envs h0 new)
                \<lparr>individuals := individuals (envs h0 ?cur), history := history (envs h0 ?cur)\<rparr>)\<rparr>"
    obtain r4 h4 where ev: "evolve_at new 1 ?h3 = (r4, h4)"
      by (cases "evolve_at new 1 ?h3") auto
    have same: "history (if ?cur = new
                   then (envs h0 new)\<lparr>individuals := individuals (envs h0 ?cur)\<rparr>
                   else envs h0 ?cur) = history (envs h0 ?cur)"
      by simp
    have res: "s1 = ?s2\<lparr>current_environment := new\<rparr>" "h1 = h4"
      using assms sm Inr ev
      by (auto simp: adaptive_step_def Let_def same split: sum.splits)
    from evolve_at_frame[OF ev] f show ?thesis
      by (simp add: res)
  qed
qed

lemma adaptive_loop_frame:
  assumes "adaptive_loop draw xs s h = (r, s1, h1)"
  shows "individuals s1 = individuals s \<and> history s1 = history s \<and>
         individuals (envs h1 (current_environment s1)) = individuals (envs h (current_environment s)) \<and>
         history (envs h1 (current_environment s1)) = history (envs h (current_environment s)) \<and>
         (\<forall>q. q \<noteq> individuals (envs h (current_environment s)) \<longrightarrow> pops h1 q = pops h q) \<and>
         (\<forall>q. q \<noteq> history (envs h (current_environment s)) \<longrightarrow> hists h1 q = hists h q)"
  using assms
proof (induction xs arbitrary: s h)
  case Nil
  then show ?case by simp
next
  case (Cons i xs)
  obtain r0 s0 h0 where st: "adaptive_step draw s h = (r0, s0, h0)"
    by (cases "adaptive_step draw s h") auto
  note f = adaptive_step_frame[OF st]
  show ?case
  proof (cases r0)
    case (Inl err)
    then have "s1 = s0" "h1 = h0" using Cons.prems st by simp_all
    then show ?thesis using f by simp
  next
    case (Inr u)
    then have "adaptive_loop draw xs s0 h0 = (r, s1, h1)" using Cons.prems st by simp
    from Cons.IH[OF this] f show ?thesis by simp
  qed
qed

lemmas adaptive_simps = AdaptiveEnvironment_evolve_def adaptive_step_def smart_evolve_def deactivate_def

lemmas shared_simps = shared_pool_def shared_heap_def AdaptiveEnvironment_compile_def compile_def
  compile_sub_environments_eq

text \<open>
  Claim C10 as stated does not hold. \<open>compile\<close> stores the list object it is handed.
  When the composite is compiled with list object 1, the population that the active
  sub-environment \<open>A\<close> was compiled with, \<open>evolve 2\<close> returns that object, and its
  contents are no longer what the composite held before the call: they are the
  population that \<open>A\<close> evolved.
\<close>

theorem adaptive_evolve_shared_population_counterexample:
  "fst (AdaptiveEnvironment_compile pool (Some sum_list) (Some 1) None 1 duel_heap) = Inr () \<and>
   individuals shared_pool = 1 \<and>
   individuals (envs shared_heap (current_environment shared_pool)) = 1 \<and>
   pops shared_heap 1 = [\<lparr>fitness = Fin 4, genes = []\<rparr>] \<and>
   fst (AdaptiveEnvironment_evolve first_draw shared_pool 2 shared_heap) = Inr (1, 0) \<and>
   pops (snd (snd (AdaptiveEnvironment_evolve first_draw shared_pool 2 shared_heap))) 1
     = [\<lparr>fitness = Fin 4, genes = []\<rparr>, \<lparr>fitness = Fin 5, genes = []\<rparr>,
        \<lparr>fitness = Fin 6, genes = []\<rparr>] \<and>
   pops (snd (snd (AdaptiveEnvironment_evolve first_draw shared_pool 2 shared_heap))) 1
     \<noteq> pops shared_heap 1"
  by (simp add: shared_simps adaptive_simps duel_simps run_simps demo_simps)

text \<open>
  Claim C10, amended. Whatever \<open>AdaptiveEnvironment.evolve\<close> does (return or raise),
  the composite's fields \<open>individuals\<close> and \<open>history\<close> are the list objects it held
  before the call, and when the call returns it returns exactly that pair. The only
  list objects written are the population and the history of the sub-environment that
  was active when the call began (every sub-environment that runs is handed those two
  objects). So when the composite's own population is not that very population
  object, its contents are as before the call and it is not the list the active
  sub-environment ends up with; and likewise for the history.
\<close>

theorem adaptive_evolve_leaves_own_lists:
  assumes "AdaptiveEnvironment_evolve draw s N h = (r, s', h')"
  shows "individuals s' = individuals s \<and> history s' = history s \<and>
         (\<forall>ret. r = Inr ret \<longrightarrow> ret = (individuals s, history s)) \<and>
         (\<forall>q. q \<noteq> individuals (envs h (current_environment s)) \<longrightarrow> pops h' q = pops h q) \<and>
         (\<forall>q. q \<noteq> history (envs h (current_environment s)) \<longrightarrow> hists h' q = hists h q) \<and>
         (individuals s \<noteq> individuals (envs h (current_environment s)) \<longrightarrow>
            pops h' (individuals s) = pops h (individuals s) \<and>
            individuals (envs h' (current_environment s')) \<noteq> individuals s) \<and>
         (history s \<noteq> history (envs h (current_environment s)) \<longrightarrow>
            hists h' (history s) = hists h (history s) \<and>
            history (envs h' (current_environment s')) \<noteq> history s)"
proof -
  obtain r0 where loop: "adaptive_loop draw (range_int N) s h = (r0, s', h')"
    and r: "r = (case r0 of Inl err \<Rightarrow> Inl err | Inr u \<Rightarrow> Inr (individuals s', history s'))"
    using assms by (auto simp: AdaptiveEnvironment_evolve_def split: prod.splits sum.splits)
  from adaptive_loop_frame[OF loop] r show ?thesis
    by (cases r0) auto
qed

theorem adaptive_evolve_leaves_own_lists_witness:
  "\<exists>s' h'. AdaptiveEnvironment_evolve first_draw pool 2 duel_heap = (Inr (0, 0), s', h') \<and>
     pops h' 0 = pops duel_heap 0 \<and> hists h' 0 = hists duel_heap 0 \<and> hists h' 1 = [Fin 5, Fin 6]"
proof -
  obtain r s' h' where ev: "AdaptiveEnvironment_evolve first_draw pool 2 duel_heap = (r, s', h')"
    by (cases "AdaptiveEnvironment_evolve first_draw pool 2 duel_heap") auto
  have ok: "fst (AdaptiveEnvironment_evolve first_draw pool 2 duel_heap) = Inr (0, 0)"
    by (simp add: adaptive_simps duel_simps run_simps demo_simps)
  have v: "hists (snd (snd (AdaptiveEnvironment_evolve first_draw pool 2 duel_heap))) 1 = [Fin 5, Fin 6]"
    by (simp add: adaptive_simps duel_simps run_simps demo_simps)
  have sep: "individuals pool \<noteq> individuals (envs duel_heap (current_environment pool))"
    "history pool \<noteq> history (envs duel_heap (current_environment pool))"
    by (simp_all add: duel_simps demo_env_def)
  have own: "individuals pool = 0" "history pool = 0"
    by (simp_all add: duel_simps demo_env_def)
  from adaptive_evolve_leaves_own_lists[OF ev] sep
  have "pops h' (individuals pool) = pops duel_heap (individuals pool)"
    "hists h' (history pool) = hists duel_heap (history pool)"
    by simp_all
  then show ?thesis using ev ok v own by simp
qed

subsection \<open>switch_environment takes the first largest gain\<close>






lemmas switch_simps = switch_environment_def trial_def sentinel_def idle_pool_def bare_heap_def
  frozen_heap_def



text \<open>
  The second case occurs: from a candidate of fitness \<^verbatim>\<open>-inf\<close> every gain is \<open>nan\<close>.
\<close>

lemma switch_environment_keeps_on_nan:
  "switch_environment pool frozen_heap = (Inr (), pool, snd (snd (switch_environment pool frozen_heap)))"
  by (simp add: switch_simps duel_simps run_simps demo_simps)


subsection \<open>ChronologicalEnvironment.evolve concatenates the stage histories\<close>

lemma chronological_stages_append:
  "chronological_stages g (xs @ ys) s h =
     (case chronological_stages g xs s h of
        (Inl err, s1, h1) \<Rightarrow> (Inl err, s1, h1)
      | (Inr u, s1, h1) \<Rightarrow> chronological_stages g ys s1 h1)"
  by (induction xs arbitrary: s h) (auto split: prod.splits sum.splits)

lemma chronological_stage_ok:
  fixes s :: "'w chronological"
  defines "c \<equiv> combined_history s"
  assumes run: "evolve_at a n (h\<lparr>envs := (envs h)(a := (envs h a)\<lparr>individuals := individuals s\<rparr>)\<rparr>)
                  = (Inr ret, h2)"
    and n: "1 \<le> n"
    and act: "\<not> deactivated (envs h a)"
    and xc: "history (envs h a) \<noteq> c"
    and xn: "history (envs h a) < next_hist h"
    and cn: "c < next_hist h"
  shows "\<exists>s' h'. chronological_stage g (a, Some n) s h = (Inr (), s', h') \<and>
           combined_history s' = c \<and> individuals s' = individuals s \<and>
           ret = RetPair (individuals s) (history (envs h a)) \<and>
           length (hists h2 (history (envs h a))) = length (hists h (history (envs h a))) + nat n \<and>
           hists h' c = hists h c @ hists h2 (history (envs h a)) \<and>
           history (envs h' a) = next_hist h \<and> hists h' (next_hist h) = [] \<and>
           next_hist h' = Suc (next_hist h) \<and>
           deactivated (envs h' a) = deactivated (envs h a) \<and>
           (\<forall>b. b \<noteq> a \<longrightarrow> envs h' b = envs h b) \<and>
           (\<forall>q. q \<noteq> history (envs h a) \<and> q \<noteq> c \<and> q \<noteq> next_hist h \<longrightarrow> hists h' q = hists h q)"
proof -
  let ?x = "history (envs h a)"
  let ?h1 = "h\<lparr>envs := (envs h)(a := (envs h a)\<lparr>individuals := individuals s\<rparr>)\<rparr>"
  have e1: "history (envs ?h1 a) = ?x" "individuals (envs ?h1 a) = individuals s"
    "deactivated (envs ?h1 a) = deactivated (envs h a)" "hists ?h1 = hists h"
    "next_hist ?h1 = next_hist h" "\<forall>b. b \<noteq> a \<longrightarrow> envs ?h1 b = envs h b"
    by simp_all
  note f = evolve_at_frame[OF run]
  have ret: "ret = RetPair (individuals s) ?x"
  proof (cases ret)
    case (RetPop p)
    then show ?thesis using f act e1 by simp
  next
    case (RetPair p hs)
    then show ?thesis using f e1 by simp
  qed
  from f ret obtain reps where
    reps: "hists h2 ?x = hists h ?x @ reps" "length reps = nat n"
    using e1 by auto
  have oth: "\<forall>q. q \<noteq> ?x \<longrightarrow> hists h2 q = hists h q" using f e1 by simp
  have nh: "next_hist h2 = next_hist h" using f e1 by simp
  have ea: "deactivated (envs h2 a) = deactivated (envs h a)" using f e1 by simp
  have eb: "\<forall>b. b \<noteq> a \<longrightarrow> envs h2 b = envs h b" using f e1 by simp
  have ne: "hists h2 ?x \<noteq> []" using reps n by auto
  let ?r = "next_hist h"
  have xr: "?x \<noteq> ?r" "c \<noteq> ?r" using xn cn by simp_all
  let ?h6 = "h2\<lparr>hists := (hists h2)(?r := [], c := hists h2 c @ hists h2 ?x),
                 next_hist := Suc ?r,
                 envs := (envs h2)(a := (envs h2 a)\<lparr>history := ?r\<rparr>),
                 pops := (pops h2)(individuals s := pops h2 (individuals s) @ pops h2 (individuals s))\<rparr>"
  have h6x: "hists ?h6 ?x = hists h2 ?x" using xr xc by simp
  define s' where "s' = (case best_environment s of
        None \<Rightarrow> s\<lparr>best_environment := Some (name (envs h2 a), last (hists h2 ?x))\<rparr>
      | Some b \<Rightarrow> if last (hists h2 ?x) > snd b
                  then s\<lparr>best_environment := Some (name (envs h2 a), last (hists h2 ?x))\<rparr>
                  else s)"
  have s': "combined_history s' = c" "individuals s' = individuals s"
    by (simp_all add: s'_def c_def split: option.splits)
  have run': "evolve_at a n ?h1 = (Inr (RetPair (individuals s) ?x), h2)"
    using run ret by simp
  have cx: "combined_history s \<noteq> ?x" "combined_history s \<noteq> next_hist h2"
    "?x \<noteq> next_hist h2"
    using xc xr nh by (simp_all add: c_def)
  have st: "chronological_stage g (a, Some n) s h = (Inr (), s', ?h6)"
    unfolding chronological_stage_def
    using ne cx
    by (simp add: run' unpack_pair_def new_hist_def Let_def nh s'_def c_def split: option.splits)
  have 1: "hists ?h6 c = hists h c @ hists h2 ?x" using oth xc xr by simp
  have 2: "\<forall>q. q \<noteq> ?x \<and> q \<noteq> c \<and> q \<noteq> ?r \<longrightarrow> hists ?h6 q = hists h q"
    using oth by simp
  have 3: "length (hists h2 ?x) = length (hists h ?x) + nat n" using reps by simp
  show ?thesis
    using st s' ret 1 2 3 ea eb xr by (intro exI[of _ s'] exI[of _ ?h6]) simp
qed

lemmas relay_simps = ChronologicalEnvironment_evolve_def chronological_stage_def
  relay_zero_def idle_heap_def relay_rerun_def deactivate_def

text \<open>
  Claim C6 as stated does not hold. The composite \<open>relay\<close> has the explicit counts
  \<open>[2, 1]\<close>, and a first call of \<open>evolve\<close> yields a combined history of length
  \<open>2 + 1\<close>; a second call, whose stage runs complete normally as well, returns the
  same list object, now of another length, since the combined history is never
  cleared. With the explicit count 0 the stage run returns an empty history and
  \<^verbatim>\<open>history[-1]\<close> raises \<open>IndexError\<close>; with a deactivated stage environment the run
  returns the bare population, which does not unpack into a pair.
\<close>

theorem chronological_combined_history_counterexample:
  "fst (ChronologicalEnvironment_evolve relay 1 duel_heap) = Inr (0, 3) \<and>
   length (hists (snd (snd (ChronologicalEnvironment_evolve relay 1 duel_heap))) 3) = 2 + 1 \<and>
   fst relay_rerun = Inr (0, 3) \<and>
   length (hists (snd (snd relay_rerun)) 3) \<noteq> 2 + 1 \<and>
   fst (ChronologicalEnvironment_evolve relay_zero 1 duel_heap) = Inl IndexError \<and>
   fst (ChronologicalEnvironment_evolve relay 1 idle_heap) = Inl ValueError"
  by (simp add: relay_simps duel_simps run_simps demo_simps)

text \<open>
  Claim C6, amended. Let every stage pair carry an explicit count of at least 1 and
  every stage environment be active; let the combined history and the history of
  every stage environment be empty before the call, no two stage environments share a
  history list and none shares the combined history list (all of them list objects
  allocated before the call); and let every stage run complete normally: the run of
  stage \<open>i\<close>, started in the state \<open>handed i\<close> in which the stage environment was given
  the composite's population after the stages before it, returns. Then \<open>evolve\<close>
  returns the composite's population and its combined history; the combined history
  has length \<open>g1 + ... + gk\<close>; its first \<open>g1\<close> entries are the history that the run of
  the first stage environment returned; and after every stage the history of every
  stage environment is empty.
\<close>

theorem chronological_evolve_concatenates_fresh_histories:
  fixes s :: "'w chronological" and h :: "'w heap" and g :: int
  defines "egs \<equiv> environments_and_generations s"
  defines "c \<equiv> combined_history s"
  defines "after \<equiv> \<lambda>i. snd (snd (chronological_stages g (take i egs) s h))"
  defines "handed \<equiv> \<lambda>i. (after i)\<lparr>envs := (envs (after i))(fst (egs ! i) :=
             (envs (after i) (fst (egs ! i)))\<lparr>individuals := individuals s\<rparr>)\<rparr>"
  assumes counts: "\<forall>st\<in>set egs. \<exists>n. snd st = Some n \<and> 1 \<le> n"
    and active: "\<forall>a\<in>fst ` set egs. \<not> deactivated (envs h a)"
    and fresh: "hists h c = []" "\<forall>a\<in>fst ` set egs. hists h (history (envs h a)) = []"
    and apart: "\<forall>a\<in>fst ` set egs. history (envs h a) \<noteq> c"
      "inj_on (\<lambda>a. history (envs h a)) (fst ` set egs)"
    and alloc: "c < next_hist h" "\<forall>a\<in>fst ` set egs. history (envs h a) < next_hist h"
    and runs: "\<forall>i<length egs. \<exists>ret h2.
                 evolve_at (fst (egs ! i)) (the (snd (egs ! i))) (handed i) = (Inr ret, h2)"
  shows "\<exists>s' h'. ChronologicalEnvironment_evolve s g h = (Inr (individuals s, c), s', h') \<and>
           length (hists h' c) = sum_list (map (\<lambda>st. nat (the (snd st))) egs) \<and>
           (egs \<noteq> [] \<longrightarrow>
              (\<exists>p hs h2. evolve_at (fst (egs ! 0)) (the (snd (egs ! 0))) (handed 0)
                            = (Inr (RetPair p hs), h2) \<and>
                          length (hists h2 hs) = nat (the (snd (egs ! 0))) \<and>
                          take (nat (the (snd (egs ! 0)))) (hists h' c) = hists h2 hs)) \<and>
           (\<forall>i\<le>length egs. \<forall>a\<in>fst ` set egs.
              hists (after i) (history (envs (after i) a)) = [])"
proof -
  define A where "A = fst ` set egs"
  define Inv where "Inv = (\<lambda>hi :: 'w heap.
     c < next_hist hi \<and>
     (\<forall>a\<in>A. history (envs hi a) < next_hist hi \<and> history (envs hi a) \<noteq> c \<and>
               hists hi (history (envs hi a)) = [] \<and> \<not> deactivated (envs hi a)) \<and>
     inj_on (\<lambda>a. history (envs hi a)) A)"
  define First where "First = (\<lambda>hi :: 'w heap. \<exists>p hs h2 more.
     evolve_at (fst (egs ! 0)) (the (snd (egs ! 0))) (handed 0) = (Inr (RetPair p hs), h2) \<and>
     length (hists h2 hs) = nat (the (snd (egs ! 0))) \<and> hists hi c = hists h2 hs @ more)"
  have Inv0: "Inv h"
    unfolding Inv_def A_def using active fresh apart alloc by simp
  have step: "i \<le> length egs \<Longrightarrow>
      \<exists>si. chronological_stages g (take i egs) s h = (Inr (), si, after i) \<and>
           combined_history si = c \<and> individuals si = individuals s \<and> Inv (after i) \<and>
           length (hists (after i) c) = sum_list (map (\<lambda>st. nat (the (snd st))) (take i egs)) \<and>
           (0 < i \<longrightarrow> First (after i))" for i
  proof (induction i)
    case 0
    have "chronological_stages g (take 0 egs) s h = (Inr (), s, after 0)"
      by (simp add: after_def)
    moreover have "after 0 = h" by (simp add: after_def)
    ultimately show ?case using Inv0 fresh(1) by (intro exI[of _ s]) (simp add: c_def)
  next
    case (Suc i)
    then have i: "i < length egs" by simp
    from Suc.IH i obtain si where
      pre: "chronological_stages g (take i egs) s h = (Inr (), si, after i)"
      and si: "combined_history si = c" "individuals si = individuals s"
      and inv: "Inv (after i)"
      and len: "length (hists (after i) c) = sum_list (map (\<lambda>st. nat (the (snd st))) (take i egs))"
      and fst0: "0 < i \<longrightarrow> First (after i)"
      by auto
    let ?hi = "after i"
    let ?a = "fst (egs ! i)"
    let ?x = "history (envs ?hi ?a)"
    have mem: "egs ! i \<in> set egs" using i by simp
    then have aA: "?a \<in> A" by (simp add: A_def)
    from counts mem obtain n where n: "snd (egs ! i) = Some n" "1 \<le> n" by blast
    have stage: "egs ! i = (?a, Some n)" using n by (simp add: prod_eq_iff)
    from runs i obtain ret h2 where
      run: "evolve_at ?a n (handed i) = (Inr ret, h2)" using n by auto
    have run': "evolve_at ?a n (?hi\<lparr>envs := (envs ?hi)(?a := (envs ?hi ?a)\<lparr>individuals := individuals si\<rparr>)\<rparr>)
                  = (Inr ret, h2)"
      using run si by (simp add: handed_def)
    have old: "\<forall>b\<in>A. history (envs ?hi b) < next_hist ?hi \<and> history (envs ?hi b) \<noteq> c \<and>
               hists ?hi (history (envs ?hi b)) = [] \<and> \<not> deactivated (envs ?hi b)"
      and oinj: "inj_on (\<lambda>a. history (envs ?hi a)) A"
      and ocn: "c < next_hist ?hi"
      using inv unfolding Inv_def by blast+
    have olda: "history (envs ?hi ?a) < next_hist ?hi \<and> history (envs ?hi ?a) \<noteq> c \<and>
               hists ?hi (history (envs ?hi ?a)) = [] \<and> \<not> deactivated (envs ?hi ?a)"
      using old aA by (rule bspec)
    have pa: "\<not> deactivated (envs ?hi ?a)" "?x \<noteq> combined_history si" "?x < next_hist ?hi"
      "combined_history si < next_hist ?hi" "hists ?hi ?x = []"
      using olda ocn si by simp_all
    from chronological_stage_ok[OF run' n(2) pa(1-4), of g] obtain s' h' where
      st: "chronological_stage g (?a, Some n) si ?hi = (Inr (), s', h')"
      and s': "combined_history s' = c" "individuals s' = individuals s"
      and ret: "ret = RetPair (individuals si) ?x"
      and l2: "length (hists h2 ?x) = length (hists ?hi ?x) + nat n"
      and hc: "hists h' c = hists ?hi c @ hists h2 ?x"
      and ha: "history (envs h' ?a) = next_hist ?hi" "hists h' (next_hist ?hi) = []"
        "next_hist h' = Suc (next_hist ?hi)" "deactivated (envs h' ?a) = deactivated (envs ?hi ?a)"
      and eb: "\<forall>b. b \<noteq> ?a \<longrightarrow> envs h' b = envs ?hi b"
      and hq: "\<forall>q. q \<noteq> ?x \<and> q \<noteq> c \<and> q \<noteq> next_hist ?hi \<longrightarrow> hists h' q = hists ?hi q"
      using si by auto
    have whole: "chronological_stages g (take (Suc i) egs) s h = (Inr (), s', h')"
      using i pre st stage by (simp add: take_Suc_conv_app_nth chronological_stages_append)
    then have af: "after (Suc i) = h'" by (simp add: after_def)
    have new: "\<forall>b\<in>A. history (envs h' b) < next_hist h' \<and> history (envs h' b) \<noteq> c \<and>
               hists h' (history (envs h' b)) = [] \<and> \<not> deactivated (envs h' b)"
    proof
      fix b assume b: "b \<in> A"
      show "history (envs h' b) < next_hist h' \<and> history (envs h' b) \<noteq> c \<and>
               hists h' (history (envs h' b)) = [] \<and> \<not> deactivated (envs h' b)"
      proof (cases "b = ?a")
        case True
        then show ?thesis using ha ocn pa(1) by simp
      next
        case False
        then have e: "envs h' b = envs ?hi b" using eb by simp
        have ob: "history (envs ?hi b) < next_hist ?hi" "history (envs ?hi b) \<noteq> c"
          "hists ?hi (history (envs ?hi b)) = []" "\<not> deactivated (envs ?hi b)"
          using old b by simp_all
        have "history (envs ?hi b) \<noteq> ?x"
          using oinj b aA False by (auto dest: inj_onD)
        then have "hists h' (history (envs ?hi b)) = hists ?hi (history (envs ?hi b))"
          using hq ob by simp
        then show ?thesis using e ob ha(3) by simp
      qed
    qed
    have ninj: "inj_on (\<lambda>a. history (envs h' a)) A"
    proof (rule inj_onI)
      fix b1 b2 assume b: "b1 \<in> A" "b2 \<in> A"
        and eq: "history (envs h' b1) = history (envs h' b2)"
      have lt: "\<And>b. b \<in> A \<Longrightarrow> b \<noteq> ?a \<Longrightarrow> history (envs h' b) < next_hist ?hi"
        using old eb by simp
      show "b1 = b2"
      proof (cases "b1 = ?a")
        case True
        show ?thesis
        proof (rule ccontr)
          assume "b1 \<noteq> b2"
          then have "b2 \<noteq> ?a" using True by simp
          from lt[OF b(2) this] eq True ha(1) show False by simp
        qed
      next
        case False
        show ?thesis
        proof (cases "b2 = ?a")
          case True
          from lt[OF b(1) False] eq True ha(1) show ?thesis by simp
        next
          case b2: False
          have "history (envs ?hi b1) = history (envs ?hi b2)"
            using eq eb False b2 by simp
          then show ?thesis using oinj b by (auto dest: inj_onD)
        qed
      qed
    qed
    have ninv: "Inv h'"
      unfolding Inv_def using new ninj ocn ha(3) by simp
    have lx: "length (hists h2 ?x) = nat n" using l2 pa(5) by simp
    have nlen: "length (hists h' c) = sum_list (map (\<lambda>st. nat (the (snd st))) (take (Suc i) egs))"
      using i hc len lx n by (simp add: take_Suc_conv_app_nth)
    have nfirst: "First h'"
    proof (cases "i = 0")
      case True
      have a0: "after 0 = h" by (simp add: after_def)
      have "hists ?hi c = []" using True a0 fresh(1) by simp
      then have "hists h' c = hists h2 ?x @ []" using hc by simp
      moreover have "evolve_at (fst (egs ! 0)) (the (snd (egs ! 0))) (handed 0)
                       = (Inr (RetPair (individuals si) ?x), h2)"
        using run ret True n by simp
      moreover have "length (hists h2 ?x) = nat (the (snd (egs ! 0)))"
        using lx True n by simp
      ultimately show ?thesis unfolding First_def by blast
    next
      case False
      with fst0 obtain p hs h20 more where
        f: "evolve_at (fst (egs ! 0)) (the (snd (egs ! 0))) (handed 0) = (Inr (RetPair p hs), h20)"
          "length (hists h20 hs) = nat (the (snd (egs ! 0)))" "hists ?hi c = hists h20 hs @ more"
        unfolding First_def by auto
      have "hists h' c = hists h20 hs @ (more @ hists h2 ?x)" using hc f(3) by simp
      with f(1,2) show ?thesis unfolding First_def by blast
    qed
    show ?case
      using whole af s' ninv nlen nfirst by (intro exI[of _ s']) simp
  qed
  from step[of "length egs"] obtain s' where
    fin: "chronological_stages g egs s h = (Inr (), s', after (length egs))"
    and s': "combined_history s' = c" "individuals s' = individuals s"
    and len: "length (hists (after (length egs)) c) = sum_list (map (\<lambda>st. nat (the (snd st))) egs)"
    and fst0: "0 < length egs \<longrightarrow> First (after (length egs))"
    by auto
  have ev: "ChronologicalEnvironment_evolve s g h = (Inr (individuals s, c), s', after (length egs))"
    using fin s' by (simp add: ChronologicalEnvironment_evolve_def egs_def)
  have first: "egs \<noteq> [] \<longrightarrow>
              (\<exists>p hs h2. evolve_at (fst (egs ! 0)) (the (snd (egs ! 0))) (handed 0)
                            = (Inr (RetPair p hs), h2) \<and>
                          length (hists h2 hs) = nat (the (snd (egs ! 0))) \<and>
                          take (nat (the (snd (egs ! 0)))) (hists (after (length egs)) c) = hists h2 hs)"
  proof
    assume "egs \<noteq> []"
    with fst0 obtain p hs h2 more where
      f: "evolve_at (fst (egs ! 0)) (the (snd (egs ! 0))) (handed 0) = (Inr (RetPair p hs), h2)"
        "length (hists h2 hs) = nat (the (snd (egs ! 0)))"
        "hists (after (length egs)) c = hists h2 hs @ more"
      unfolding First_def by auto
    have "take (nat (the (snd (egs ! 0)))) (hists (after (length egs)) c) = hists h2 hs"
      using f(2,3) by simp
    with f(1,2) show "\<exists>p hs h2. evolve_at (fst (egs ! 0)) (the (snd (egs ! 0))) (handed 0)
                            = (Inr (RetPair p hs), h2) \<and>
                          length (hists h2 hs) = nat (the (snd (egs ! 0))) \<and>
                          take (nat (the (snd (egs ! 0)))) (hists (after (length egs)) c) = hists h2 hs"
      by blast
  qed
  have empties: "\<forall>i\<le>length egs. \<forall>a\<in>fst ` set egs. hists (after i) (history (envs (after i) a)) = []"
  proof (intro allI impI)
    fix i assume "i \<le> length egs"
    from step[OF this] have "Inv (after i)" by auto
    then show "\<forall>a\<in>fst ` set egs. hists (after i) (history (envs (after i) a)) = []"
      unfolding Inv_def A_def by blast
  qed
  show ?thesis using ev len first empties by blast
qed

theorem chronological_evolve_concatenates_fresh_histories_witness:
  "\<exists>s' h'. ChronologicalEnvironment_evolve relay 1 duel_heap = (Inr (0, 3), s', h') \<and>
     length (hists h' 3) = 3 \<and> hists h' (history (envs h' 1)) = [] \<and>
     hists h' (history (envs h' 2)) = []"
proof -
  let ?egs = "environments_and_generations relay"
  let ?after = "\<lambda>i. snd (snd (chronological_stages 1 (take i ?egs) relay duel_heap))"
  let ?handed = "\<lambda>i. (?after i)\<lparr>envs := (envs (?after i))(fst (?egs ! i) :=
             (envs (?after i) (fst (?egs ! i)))\<lparr>individuals := individuals relay\<rparr>)\<rparr>"
  have egs: "?egs = [(1, Some 2), (2, Some 1)]" by (simp add: duel_simps)
  have n: "length ?egs = 2" by (simp add: egs)
  have A: "fst ` set ?egs = {1, 2}" by (simp add: egs)
  have counts: "\<forall>st\<in>set ?egs. \<exists>n. snd st = Some n \<and> 1 \<le> n" by (simp add: egs)
  have active: "\<forall>a\<in>fst ` set ?egs. \<not> deactivated (envs duel_heap a)"
    unfolding A by (simp add: duel_simps demo_env_def)
  have fresh: "hists duel_heap (combined_history relay) = []"
    "\<forall>a\<in>fst ` set ?egs. hists duel_heap (history (envs duel_heap a)) = []"
    by (simp_all add: duel_simps)
  have apart: "\<forall>a\<in>fst ` set ?egs. history (envs duel_heap a) \<noteq> combined_history relay"
    "inj_on (\<lambda>a. history (envs duel_heap a)) (fst ` set ?egs)"
    unfolding A by (simp_all add: duel_simps demo_env_def)
  have alloc: "combined_history relay < next_hist duel_heap"
    "\<forall>a\<in>fst ` set ?egs. history (envs duel_heap a) < next_hist duel_heap"
    unfolding A by (simp_all add: duel_simps demo_env_def)
  have r0: "\<exists>ret h2. evolve_at (fst (?egs ! 0)) (the (snd (?egs ! 0))) (?handed 0) = (Inr ret, h2)"
    by (simp add: relay_simps duel_simps run_simps demo_simps)
  have r1: "\<exists>ret h2. evolve_at (fst (?egs ! 1)) (the (snd (?egs ! 1))) (?handed 1) = (Inr ret, h2)"
    by (simp add: relay_simps duel_simps run_simps demo_simps)
  have runs: "\<forall>i<length ?egs. \<exists>ret h2.
                 evolve_at (fst (?egs ! i)) (the (snd (?egs ! i))) (?handed i) = (Inr ret, h2)"
    unfolding n using r0 r1 by (auto simp: less_2_cases_iff)
  from chronological_evolve_concatenates_fresh_histories[OF counts active fresh apart alloc runs]
  obtain s' h' where
    ev: "ChronologicalEnvironment_evolve relay 1 duel_heap
           = (Inr (individuals relay, combined_history relay), s', h')"
    and len: "length (hists h' (combined_history relay))
                = sum_list (map (\<lambda>st. nat (the (snd st))) ?egs)"
    and emp: "\<forall>i\<le>length ?egs. \<forall>a\<in>fst ` set ?egs.
                hists (?after i) (history (envs (?after i) a)) = []"
    by blast
  have own: "individuals relay = 0" "combined_history relay = 3"
    by (simp_all add: duel_simps demo_env_def)
  have last: "?after (length ?egs) = h'"
    using ev by (simp add: ChronologicalEnvironment_evolve_def split: prod.splits sum.splits)
  have "length ?egs \<le> length ?egs" by simp
  with emp have "\<forall>a\<in>fst ` set ?egs.
      hists (?after (length ?egs)) (history (envs (?after (length ?egs)) a)) = []"
    by blast
  then have "\<forall>a\<in>fst ` set ?egs. hists h' (history (envs h' a)) = []"
    unfolding last .
  then have e: "hists h' (history (envs h' 1)) = []" "hists h' (history (envs h' 2)) = []"
    unfolding A by simp_all
  have "length (hists h' 3) = 3" using len own by (simp add: egs)
  then show ?thesis using ev own e by simp
qed

end
